theory Spec2Isabelle
  imports Main "HOL-Library.Sublist"
begin

section \<open>Go strings and the functions of package strings that the scraper calls\<close>

text \<open>
  A Go string is a sequence of bytes; it is modelled as \<^typ>\<open>string\<close> (a list of 8-bit
  characters). The functions below follow the Go standard library: \<open>strings.HasPrefix\<close>,
  \<open>strings.HasSuffix\<close>, \<open>strings.TrimSuffix\<close>, \<open>strings.IndexByte\<close>, \<open>strings.Split\<close>
  (for the one-byte separator the program passes), \<open>strings.Join\<close> and
  \<open>strings.TrimSpace\<close>.
\<close>

definition HasPrefix :: "string \<Rightarrow> string \<Rightarrow> bool" where
  \<comment> \<open>\<open>len(s) >= len(prefix) && s[:len(prefix)] == prefix\<close>\<close>
  "HasPrefix s pre \<longleftrightarrow> length pre \<le> length s \<and> take (length pre) s = pre"

definition HasSuffix :: "string \<Rightarrow> string \<Rightarrow> bool" where
  \<comment> \<open>\<open>len(s) >= len(suffix) && s[len(s)-len(suffix):] == suffix\<close>\<close>
  "HasSuffix s suf \<longleftrightarrow> length suf \<le> length s \<and> drop (length s - length suf) s = suf"

definition TrimSuffix :: "string \<Rightarrow> string \<Rightarrow> string" where
  \<comment> \<open>\<open>if HasSuffix(s, suffix) { return s[:len(s)-len(suffix)] }; return s\<close>\<close>
  "TrimSuffix s suf = (if HasSuffix s suf then take (length s - length suf) s else s)"

fun IndexByte :: "string \<Rightarrow> char \<Rightarrow> nat option" where
  \<comment> \<open>index of the first occurrence of the byte; Go's \<open>-1\<close> is \<open>None\<close>\<close>
  "IndexByte [] c = None"
| "IndexByte (x # xs) c = (if x = c then Some 0 else map_option Suc (IndexByte xs c))"

lemma IndexByte_less: "IndexByte s c = Some m \<Longrightarrow> m < length s"
  by (induction s arbitrary: m) (auto split: if_splits)

function Split :: "string \<Rightarrow> char \<Rightarrow> string list" where
  \<comment> \<open>the loop of \<open>strings.Split(s, sep)\<close> for a separator of one byte: cut at the first
      occurrence, go on with the rest, the last piece is what remains\<close>
  "Split s sep =
     (case IndexByte s sep of
        None \<Rightarrow> [s]
      | Some m \<Rightarrow> take m s # Split (drop (m + 1) s) sep)"
  by pat_completeness auto
termination
  by (relation "measure (\<lambda>(s, sep). length s)") (auto dest: IndexByte_less)

declare Split.simps [simp del]

fun Join :: "string list \<Rightarrow> string \<Rightarrow> string" where
  \<comment> \<open>\<open>strings.Join\<close>: nothing for no element, the element itself for one, otherwise the
      elements with the separator between them\<close>
  "Join [] sep = []"
| "Join [e] sep = e"
| "Join (e # es) sep = e @ sep @ Join es sep"

text \<open>
  \<open>strings.TrimSpace\<close> removes all leading and trailing white space as defined by Unicode
  (\<open>unicode.IsSpace\<close>), reading the bytes as UTF-8. The white-space code points, each in
  its UTF-8 encoding: U+0009 to U+000D, U+0020, U+0085, U+00A0, U+1680, U+2000 to U+200A,
  U+2028, U+2029, U+202F, U+205F, U+3000. A byte sequence that is not one of these
  encodings decodes to a rune that is not white space (an invalid byte decodes to
  U+FFFD, one byte wide).
\<close>

definition spaceEncodings :: "string list" where
  "spaceEncodings =
     [[CHR 0x09], [CHR 0x0A], [CHR 0x0B], [CHR 0x0C], [CHR 0x0D], [CHR 0x20],
      [CHR 0xC2, CHR 0x85], [CHR 0xC2, CHR 0xA0],
      [CHR 0xE1, CHR 0x9A, CHR 0x80],
      [CHR 0xE2, CHR 0x80, CHR 0x80], [CHR 0xE2, CHR 0x80, CHR 0x81],
      [CHR 0xE2, CHR 0x80, CHR 0x82], [CHR 0xE2, CHR 0x80, CHR 0x83],
      [CHR 0xE2, CHR 0x80, CHR 0x84], [CHR 0xE2, CHR 0x80, CHR 0x85],
      [CHR 0xE2, CHR 0x80, CHR 0x86], [CHR 0xE2, CHR 0x80, CHR 0x87],
      [CHR 0xE2, CHR 0x80, CHR 0x88], [CHR 0xE2, CHR 0x80, CHR 0x89],
      [CHR 0xE2, CHR 0x80, CHR 0x8A],
      [CHR 0xE2, CHR 0x80, CHR 0xA8], [CHR 0xE2, CHR 0x80, CHR 0xA9],
      [CHR 0xE2, CHR 0x80, CHR 0xAF],
      [CHR 0xE2, CHR 0x81, CHR 0x9F],
      [CHR 0xE3, CHR 0x80, CHR 0x80]]"

definition leadingSpace :: "string \<Rightarrow> nat" where
  \<comment> \<open>the width in bytes of the white-space rune the string starts with; 0 when the first
      rune is not white space or the string is empty\<close>
  "leadingSpace s =
     (case find (HasPrefix s) spaceEncodings of None \<Rightarrow> 0 | Some e \<Rightarrow> length e)"

definition trailingSpace :: "string \<Rightarrow> nat" where
  \<comment> \<open>the width in bytes of the white-space rune the string ends with, or 0\<close>
  "trailingSpace s =
     (case find (HasSuffix s) spaceEncodings of None \<Rightarrow> 0 | Some e \<Rightarrow> length e)"

lemma find_HasPrefix_length:
  "find (HasPrefix s) es = Some e \<Longrightarrow> length e \<le> length s"
  by (induction es) (auto simp: HasPrefix_def split: if_splits)

lemma find_HasSuffix_length:
  "find (HasSuffix s) es = Some e \<Longrightarrow> length e \<le> length s"
  by (induction es) (auto simp: HasSuffix_def split: if_splits)

lemma leadingSpace_le: "leadingSpace s \<le> length s"
  by (auto simp: leadingSpace_def split: option.splits dest: find_HasPrefix_length)

lemma trailingSpace_le: "trailingSpace s \<le> length s"
  by (auto simp: trailingSpace_def split: option.splits dest: find_HasSuffix_length)

function TrimLeftSpace :: "string \<Rightarrow> string" where
  "TrimLeftSpace s =
     (if leadingSpace s = 0 then s else TrimLeftSpace (drop (leadingSpace s) s))"
  by pat_completeness auto
termination
proof (relation "measure length")
  fix s :: string
  assume "leadingSpace s \<noteq> 0"
  moreover have "leadingSpace s \<le> length s" by (rule leadingSpace_le)
  ultimately show "(drop (leadingSpace s) s, s) \<in> measure length" by simp
qed simp

function TrimRightSpace :: "string \<Rightarrow> string" where
  "TrimRightSpace s =
     (if trailingSpace s = 0 then s else TrimRightSpace (take (length s - trailingSpace s) s))"
  by pat_completeness auto
termination
proof (relation "measure length")
  fix s :: string
  assume "trailingSpace s \<noteq> 0"
  moreover have "trailingSpace s \<le> length s" by (rule trailingSpace_le)
  ultimately show "(take (length s - trailingSpace s) s, s) \<in> measure length" by simp
qed simp

declare TrimLeftSpace.simps [simp del] TrimRightSpace.simps [simp del]

definition TrimSpace :: "string \<Rightarrow> string" where
  "TrimSpace s = TrimRightSpace (TrimLeftSpace s)"

section \<open>The link normalisation of \<open>scrapeWebsite\<close>\<close>

text \<open>
  The block of \<open>scrapeWebsite\<close> that rewrites \<open>link\<close> (the value of the node's \<open>href\<close>
  attribute) against \<open>url\<close>, the address of the page:
  \<^verbatim>\<open>
  if link != "" && !strings.HasPrefix(link, "http") && !strings.HasPrefix(link, "mailto:") {
      if strings.HasPrefix(link, "/") {
          parts := strings.Split(url, "/")
          if len(parts) >= 3 {
              baseURL := strings.Join(parts[:3], "/")
              link = baseURL + link
          } else {
              link = strings.TrimSuffix(url, "/") + link
          }
      } else {
          link = fmt.Sprintf("%s/%s", strings.TrimSuffix(url, "/"), link)
      }
  }
  \<close>
  The slice expression \<open>parts[:3]\<close> is evaluated only where \<open>len(parts) >= 3\<close>, so it
  cannot panic and is \<open>take 3\<close>.
\<close>

definition normalizeLink :: "string \<Rightarrow> string \<Rightarrow> string" where
  "normalizeLink url link =
     (if link \<noteq> [] \<and> \<not> HasPrefix link ''http'' \<and> \<not> HasPrefix link ''mailto:'' then
        (if HasPrefix link ''/'' then
           (let parts = Split url (CHR ''/'') in
            if length parts \<ge> 3 then
              (let baseURL = Join (take 3 parts) ''/'' in baseURL @ link)
            else TrimSuffix url ''/'' @ link)
         else TrimSuffix url ''/'' @ ''/'' @ link)
      else link)"

section \<open>\<open>scrapeWebsite\<close>\<close>

text \<open>
  The program calls three functions of other packages: \<open>http.Get\<close>,
  \<open>goquery.NewDocumentFromReader\<close> and \<open>Document.Find\<close>. They are parameters of the
  model (\<open>Get\<close>, \<open>NewDocumentFromReader\<close>, \<open>Find\<close>); an error they return is a value of
  the type \<open>'e\<close>, passed on unchanged by \<open>scrapeWebsite\<close>. The response carries
  \<open>StatusCode\<close>, \<open>Status\<close> (the status line's text, such as \<open>404 Not Found\<close>) and \<open>Body\<close>.
  A matched node is the one-node selection that \<open>Each\<close> hands to the callback: the
  text that \<open>s.Text()\<close> returns and the node's attributes as (key, value) pairs in
  document order.
\<close>

record 'b Response =
  StatusCode :: int
  Status :: string
  Body :: 'b

record Selection =
  Text :: string
  Attrs :: "(string \<times> string) list"

record ScrapeResult =
  Title :: string
  Link :: string

datatype 'e error =
  Passed 'e       \<comment> \<open>an error of \<open>http.Get\<close> or of the parser, returned as it came\<close>
| Errorf string   \<comment> \<open>the error that \<open>scrapeWebsite\<close> builds with \<open>fmt.Errorf\<close>: a value holding
                      only its formatted message\<close>

fun Attr :: "Selection \<Rightarrow> string \<Rightarrow> string \<times> bool" where
  \<comment> \<open>\<open>s.Attr(name)\<close>: the value of the first attribute with that key and \<open>true\<close>, or
      the empty string and \<open>false\<close>\<close>
  "Attr s name =
     (case map_of (Attrs s) name of None \<Rightarrow> ([], False) | Some val \<Rightarrow> (val, True))"

definition digit :: "nat \<Rightarrow> char" where
  "digit d = ''0123456789'' ! d"

function decimal :: "nat \<Rightarrow> string" where
  "decimal n = (if n < 10 then [digit n] else decimal (n div 10) @ [digit (n mod 10)])"
  by pat_completeness auto
termination
  by (relation "measure id") auto

declare decimal.simps [simp del]

definition formatInt :: "int \<Rightarrow> string" where
  \<comment> \<open>the verb \<open>%d\<close> of package fmt on an \<open>int\<close>\<close>
  "formatInt i = (if i < 0 then ''-'' @ decimal (nat (- i)) else decimal (nat i))"

definition statusCodeError :: "int \<Rightarrow> string \<Rightarrow> string" where
  \<comment> \<open>\<open>fmt.Sprintf("status code error: %d %s", res.StatusCode, res.Status)\<close>\<close>
  "statusCodeError code status = ''status code error: '' @ formatInt code @ '' '' @ status"

definition eachNode :: "string \<Rightarrow> ScrapeResult list \<Rightarrow> Selection \<Rightarrow> ScrapeResult list" where
  \<comment> \<open>the callback given to \<open>Each\<close>: from \<open>results\<close> before the node to \<open>results\<close> after it\<close>
  "eachNode url results s =
     (let title = TrimSpace (Text s) in
      if title = [] then results
      else
        (let link = fst (Attr s ''href'');
             link = normalizeLink url link
         in results @ [\<lparr>Title = title, Link = link\<rparr>]))"

definition scrapeWebsite ::
  "(string \<Rightarrow> 'e + 'b Response) \<Rightarrow> ('b \<Rightarrow> 'e + 'd) \<Rightarrow> ('d \<Rightarrow> string \<Rightarrow> Selection list) \<Rightarrow>
   string \<Rightarrow> string \<Rightarrow> 'e error + ScrapeResult list" where
  "scrapeWebsite Get NewDocumentFromReader Find url selector =
     (case Get url of
        Inl err \<Rightarrow> Inl (Passed err)
      | Inr res \<Rightarrow>
          if StatusCode res \<noteq> 200 then
            Inl (Errorf (statusCodeError (StatusCode res) (Status res)))
          else
            (case NewDocumentFromReader (Body res) of
               Inl err \<Rightarrow> Inl (Passed err)
             | Inr doc \<Rightarrow> Inr (foldl (eachNode url) [] (Find doc selector))))"

section \<open>The visit history: \<open>visitedURLs\<close>, \<open>addToVisited\<close>, \<open>getVisited\<close>\<close>

text \<open>
  \<open>visitedURLs\<close> is a package-level variable of type \<open>[]string\<close>. A Go slice is a
  view of a backing array: the array (here its address \<open>arr\<close>), the index \<open>off\<close> in that
  array of the slice's element 0, the length \<open>len\<close> and the capacity \<open>cap\<close>. Two slices
  with the same \<open>arr\<close> share storage, so the model keeps the arrays in a store
  (\<open>arrays\<close>, from addresses to contents) with an allocation frontier \<open>brk\<close>: no
  address from \<open>brk\<close> on has been handed out. The state of the program is that store and
  the slice header held in \<open>visitedURLs\<close>. The mutex makes each call of the two functions
  run alone, so a call is a function from state to state.
\<close>

record slice =
  arr :: nat
  off :: nat
  len :: nat
  cap :: nat

record state =
  arrays :: "nat \<Rightarrow> string list"
  brk :: nat
  visitedURLs :: slice

definition nilSlice :: slice where
  \<comment> \<open>the zero value of a slice type: length and capacity 0, no array behind it\<close>
  "nilSlice = \<lparr>arr = 0, off = 0, len = 0, cap = 0\<rparr>"

definition init :: state where
  \<comment> \<open>the state at program start: \<open>var visitedURLs []string\<close> is nil; address 0 stands for
      nil and is never allocated\<close>
  "init = \<lparr>arrays = (\<lambda>a. []), brk = 1, visitedURLs = nilSlice\<rparr>"

definition elems :: "state \<Rightarrow> slice \<Rightarrow> string list" where
  \<comment> \<open>the elements \<open>s[0]\<close>, ..., \<open>s[len(s)-1]\<close>\<close>
  "elems st s = take (len s) (drop (off s) (arrays st (arr s)))"

definition sliceTo :: "slice \<Rightarrow> nat \<Rightarrow> slice" where
  \<comment> \<open>\<open>s[:j]\<close>; Go panics unless \<open>j \<le> cap(s)\<close>\<close>
  "sliceTo s j = s\<lparr>len := j\<rparr>"

definition sliceFrom :: "slice \<Rightarrow> nat \<Rightarrow> slice" where
  \<comment> \<open>\<open>s[i:]\<close>; Go panics unless \<open>i \<le> len(s)\<close>\<close>
  "sliceFrom s i = s\<lparr>off := off s + i, len := len s - i, cap := cap s - i\<rparr>"

definition load :: "slice \<Rightarrow> nat \<Rightarrow> state \<Rightarrow> string" where
  \<comment> \<open>reading \<open>s[i]\<close>; Go panics unless \<open>i < len(s)\<close>\<close>
  "load s i st = arrays st (arr s) ! (off s + i)"

definition store :: "slice \<Rightarrow> nat \<Rightarrow> string \<Rightarrow> state \<Rightarrow> state" where
  \<comment> \<open>the assignment \<open>s[i] = v\<close>; Go panics unless \<open>i < len(s)\<close>\<close>
  "store s i v st = st\<lparr>arrays := (arrays st)(arr s := (arrays st (arr s))[off s + i := v])\<rparr>"

definition writeAt :: "slice \<Rightarrow> nat \<Rightarrow> string list \<Rightarrow> state \<Rightarrow> state" where
  \<comment> \<open>the block move behind \<open>copy\<close> and \<open>append\<close>: the values \<open>vs\<close>, read beforehand, go to
      \<open>s[i]\<close>, \<open>s[i+1]\<close>, ... of the backing array\<close>
  "writeAt s i vs st =
     (let a = arrays st (arr s); k = off s + i
      in st\<lparr>arrays := (arrays st)(arr s := take k a @ vs @ drop (k + length vs) a)\<rparr>)"

definition makeSlice :: "nat \<Rightarrow> state \<Rightarrow> slice \<times> state" where
  \<comment> \<open>\<open>make([]string, n)\<close>: a new array of \<open>n\<close> empty strings\<close>
  "makeSlice n st =
     (\<lparr>arr = brk st, off = 0, len = n, cap = n\<rparr>,
      st\<lparr>arrays := (arrays st)(brk st := replicate n []), brk := Suc (brk st)\<rparr>)"

definition copy :: "slice \<Rightarrow> slice \<Rightarrow> state \<Rightarrow> state" where
  \<comment> \<open>\<open>copy(dst, src)\<close> copies \<open>min(len(dst), len(src))\<close> elements\<close>
  "copy dst src st = writeAt dst 0 (take (min (len dst) (len src)) (elems st src)) st"

text \<open>
  \<open>append(s, vs...)\<close> writes in place when the capacity suffices and otherwise allocates
  \<open>a new, sufficiently large underlying array\<close> (the language specification). How large
  is the runtime's choice: \<open>grow\<close>, given the old capacity and the needed length, is a
  parameter, and the new capacity is never less than the needed length.
\<close>

definition appendSlice ::
  "(nat \<Rightarrow> nat \<Rightarrow> nat) \<Rightarrow> slice \<Rightarrow> string list \<Rightarrow> state \<Rightarrow> slice \<times> state" where
  "appendSlice grow s vs st =
     (let n = len s + length vs in
      if n \<le> cap s then (s\<lparr>len := n\<rparr>, writeAt s (len s) vs st)
      else
        (let c = max n (grow (cap s) n)
         in (\<lparr>arr = brk st, off = 0, len = n, cap = c\<rparr>,
             st\<lparr>arrays := (arrays st)(brk st := elems st s @ vs @ replicate (c - n) []),
                brk := Suc (brk st)\<rparr>)))"

fun rangeFind :: "string list \<Rightarrow> string \<Rightarrow> nat option" where
  \<comment> \<open>\<open>for i, u := range visitedURLs { if u == url { ... return } }\<close>: the index at which
      the loop body runs its \<open>return\<close>, if it does\<close>
  "rangeFind [] url = None"
| "rangeFind (u # us) url = (if u = url then Some 0 else map_option Suc (rangeFind us url))"

definition addToVisited :: "(nat \<Rightarrow> nat \<Rightarrow> nat) \<Rightarrow> string \<Rightarrow> state \<Rightarrow> state" where
  "addToVisited grow url st =
     (case rangeFind (elems st (visitedURLs st)) url of
        Some i \<Rightarrow>
          (let (v, st) = appendSlice grow (sliceTo (visitedURLs st) i)
                           (elems st (sliceFrom (visitedURLs st) (i + 1))) st;
               st = st\<lparr>visitedURLs := v\<rparr>;
               (v, st) = appendSlice grow (visitedURLs st) [url] st
           in st\<lparr>visitedURLs := v\<rparr>)
      | None \<Rightarrow>
          (let (v, st) = appendSlice grow (visitedURLs st) [url] st;
               st = st\<lparr>visitedURLs := v\<rparr>
           in if len (visitedURLs st) > 10
              then st\<lparr>visitedURLs := sliceFrom (visitedURLs st) 1\<rparr>
              else st))"

definition swap :: "slice \<Rightarrow> nat \<Rightarrow> nat \<Rightarrow> state \<Rightarrow> state" where
  \<comment> \<open>\<open>copied[i], copied[j] = copied[j], copied[i]\<close>: both reads, then both writes\<close>
  "swap s i j st = (let x = load s j st; y = load s i st in store s j y (store s i x st))"

function reverseLoop :: "int \<Rightarrow> int \<Rightarrow> slice \<Rightarrow> state \<Rightarrow> state" where
  \<comment> \<open>\<open>for i, j := 0, len(copied)-1; i < j; i, j = i+1, j-1 { swap }\<close>; \<open>j\<close> starts at -1
      for an empty slice, so the counters are integers\<close>
  "reverseLoop i j copied st =
     (if i < j then reverseLoop (i + 1) (j - 1) copied (swap copied (nat i) (nat j) st) else st)"
  by pat_completeness auto
termination
  by (relation "measure (\<lambda>(i, j, copied, st). nat (j - i))") auto

declare reverseLoop.simps [simp del]

definition getVisited :: "state \<Rightarrow> slice \<times> state" where
  "getVisited st =
     (let (copied, st) = makeSlice (len (visitedURLs st)) st;
          st = copy copied (visitedURLs st) st;
          st = reverseLoop 0 (int (len copied) - 1) copied st
      in (copied, st))"

text \<open>
  What a Go program can rely on for every slice it holds: the length is within the
  capacity, the capacity is within the backing array, and the array has been
  allocated. \<open>wfState\<close> says so of \<open>visitedURLs\<close>.
\<close>

definition wfSlice :: "state \<Rightarrow> slice \<Rightarrow> bool" where
  "wfSlice st s \<longleftrightarrow>
     len s \<le> cap s \<and> off s + cap s \<le> length (arrays st (arr s)) \<and> arr s < brk st"

definition wfState :: "state \<Rightarrow> bool" where
  "wfState st \<longleftrightarrow> wfSlice st (visitedURLs st)"

definition history :: "state \<Rightarrow> string list" where
  \<comment> \<open>the internal list, in storage order\<close>
  "history st = elems st (visitedURLs st)"

definition snapshot :: "state \<Rightarrow> string list" where
  \<comment> \<open>the sequence a caller of \<open>getVisited\<close> receives\<close>
  "snapshot st = (let (copied, st') = getVisited st in elems st' copied)"

datatype call = AddToVisited string | GetVisited

fun run :: "(nat \<Rightarrow> nat \<Rightarrow> nat) \<Rightarrow> call list \<Rightarrow> state \<Rightarrow> state" where
  \<comment> \<open>a sequence of calls, one after the other\<close>
  "run grow [] st = st"
| "run grow (AddToVisited url # cs) st = run grow cs (addToVisited grow url st)"
| "run grow (GetVisited # cs) st = run grow cs (snd (getVisited st))"

fun stores :: "slice \<Rightarrow> (nat \<times> string) list \<Rightarrow> state \<Rightarrow> state" where
  \<comment> \<open>a caller's assignments \<open>s[i] = v\<close> to a slice it holds, in order\<close>
  "stores s [] st = st"
| "stores s ((i, v) # ws) st = stores s ws (store s i v st)"

section \<open>The specification's wording\<close>

text \<open>
  The link normalizer as the specification states it, in its own terms: \<open>starts with\<close> is
  \<^const>\<open>prefix\<close>, the segments of the base URL are its maximal pieces without \<open>/\<close>, and
  stripping a trailing slash removes a last character \<open>/\<close>.
\<close>

fun segments :: "string \<Rightarrow> string list" where
  "segments [] = [[]]"
| "segments (c # cs) =
     (if c = CHR ''/'' then [] # segments cs
      else (c # hd (segments cs)) # tl (segments cs))"

definition stripSlash :: "string \<Rightarrow> string" where
  "stripSlash s = (if s \<noteq> [] \<and> last s = CHR ''/'' then butlast s else s)"

definition normalize_spec :: "string \<Rightarrow> string \<Rightarrow> string" where
  "normalize_spec baseURL href =
     (if href = [] then []
      else if prefix ''http'' href \<or> prefix ''mailto:'' href then href
      else if prefix ''/'' href then
        (if length (segments baseURL) < 3 then stripSlash baseURL @ href
         else Join (take 3 (segments baseURL)) ''/'' @ href)
      else stripSlash baseURL @ ''/'' @ href)"

text \<open>
  The history operations as the specification states them, on the list of entries
  (oldest first).
\<close>

definition record_spec :: "string \<Rightarrow> string list \<Rightarrow> string list" where
  "record_spec u xs =
     (if u \<in> set xs then remove1 u xs @ [u]
      else (let ys = xs @ [u] in if length ys > 10 then tl ys else ys))"

definition history_inv :: "string list \<Rightarrow> bool" where
  "history_inv xs \<longleftrightarrow> length xs \<le> 10 \<and> distinct xs"

function whitespaceOnly :: "string \<Rightarrow> bool" where
  \<comment> \<open>the string consists of white-space runes only (possibly of none): read rune by
      rune from the left, every rune is white space\<close>
  "whitespaceOnly s =
     (if s = [] then True
      else if leadingSpace s = 0 then False
      else whitespaceOnly (drop (leadingSpace s) s))"
  by pat_completeness auto
termination
proof (relation "measure length")
  fix s :: string
  assume "s \<noteq> []" and "leadingSpace s \<noteq> 0"
  then show "(drop (leadingSpace s) s, s) \<in> measure length" by simp
qed simp

declare whitespaceOnly.simps [simp del]

section \<open>Auxiliary definitions for the proofs\<close>

text \<open>The result that the callback appends for a node it keeps.\<close>

definition resultOf :: "string \<Rightarrow> Selection \<Rightarrow> ScrapeResult" where
  "resultOf url s = \<lparr>Title = TrimSpace (Text s), Link = normalizeLink url (fst (Attr s ''href''))\<rparr>"

text \<open>
  Reading a decimal rendering back: the number that the digits denote, with a leading
  minus sign for a negative one.
\<close>

definition digitVal :: "char \<Rightarrow> nat" where
  "digitVal c = of_char c - 48"

definition readDecimal :: "string \<Rightarrow> nat" where
  "readDecimal s = foldl (\<lambda>a c. 10 * a + digitVal c) 0 s"

definition readInt :: "string \<Rightarrow> int" where
  "readInt s =
     (case s of
        [] \<Rightarrow> 0
      | c # cs \<Rightarrow> if c = CHR ''-'' then - int (readDecimal cs) else int (readDecimal s))"

text \<open>
  The status code that an error carries: the number after \<open>status code error:\<close> in the
  message of an error built by \<open>scrapeWebsite\<close>; an error passed on from the GET or the
  parser carries none.
\<close>

definition errorCode :: "'e error \<Rightarrow> int option" where
  "errorCode err =
     (case err of
        Passed e \<Rightarrow> None
      | Errorf msg \<Rightarrow>
          if HasPrefix msg ''status code error: ''
          then Some (readInt (takeWhile (\<lambda>c. c \<noteq> CHR '' '')
                       (drop (length ''status code error: '') msg)))
          else None)"

text \<open>
  The width in bytes of a UTF-8 encoded white-space rune, read off its first byte.
\<close>

definition runeWidth :: "char \<Rightarrow> nat" where
  "runeWidth c = (if c = CHR 0xC2 then 2 else if c \<in> {CHR 0xE1, CHR 0xE2, CHR 0xE3} then 3 else 1)"

text \<open>The reversal loop of \<open>getVisited\<close> on the contents of the backing array alone.\<close>

function reverseList :: "int \<Rightarrow> int \<Rightarrow> nat \<Rightarrow> string list \<Rightarrow> string list" where
  "reverseList i j k xs =
     (if i < j
      then reverseList (i + 1) (j - 1) k (xs[k + nat i := xs ! (k + nat j), k + nat j := xs ! (k + nat i)])
      else xs)"
  by pat_completeness auto
termination
  by (relation "measure (\<lambda>(i, j, k, xs). nat (j - i))") auto

declare reverseList.simps [simp del]

text \<open>
  \<open>poke p X\<close> overwrites the array at address \<open>p\<close>: any effect on the store of writing
  through a slice whose array is \<open>p\<close>. \<open>frame p\<close> holds of a state whose history lives in
  another array than the allocated array \<open>p\<close>.
\<close>

definition poke :: "nat \<Rightarrow> string list \<Rightarrow> state \<Rightarrow> state" where
  "poke p X st = st\<lparr>arrays := (arrays st)(p := X)\<rparr>"

definition frame :: "nat \<Rightarrow> state \<Rightarrow> bool" where
  "frame p st \<longleftrightarrow> wfState st \<and> arr (visitedURLs st) \<noteq> p \<and> p < brk st"

text \<open>
  A page for concrete runs: fetched with status 200, parsed, with three matched nodes
  (one without \<open>href\<close>, one with blank text); and the matches of a page whose matched
  nodes all have blank text.
\<close>

definition page :: "Selection list" where
  "page = [\<lparr>Text = '' a '', Attrs = [(''class'', ''x'')]\<rparr>,
           \<lparr>Text = ''  '', Attrs = [(''href'', ''/x'')]\<rparr>,
           \<lparr>Text = ''b'', Attrs = [(''href'', ''/x'')]\<rparr>]"

definition blankPage :: "Selection list" where
  "blankPage = [\<lparr>Text = ''  '', Attrs = [(''href'', ''/x'')]\<rparr>,
                \<lparr>Text = [CHR 0x0A, CHR 0xC2, CHR 0xA0], Attrs = []\<rparr>]"

definition ok200 :: "string \<Rightarrow> string + unit Response" where
  "ok200 u = Inr \<lparr>StatusCode = 200, Status = ''200 OK'', Body = ()\<rparr>"

definition parsed :: "unit \<Rightarrow> string + unit" where
  "parsed b = Inr ()"

text \<open>
  Three more outcomes for concrete runs: a response with status 404, a GET that fails,
  and a body that cannot be read.
\<close>

definition notFound :: "string \<Rightarrow> string + unit Response" where
  "notFound u = Inr \<lparr>StatusCode = 404, Status = ''404 Not Found'', Body = ()\<rparr>"

definition refused :: "string \<Rightarrow> string + unit Response" where
  "refused u = Inl ''connection refused''"

definition truncated :: "unit \<Rightarrow> string + unit" where
  "truncated b = Inl ''unexpected EOF''"

text \<open>A growth policy for concrete runs: double the capacity.\<close>

definition doubling :: "nat \<Rightarrow> nat \<Rightarrow> nat" where
  "doubling c n = 2 * c"

section \<open>Facts about the string functions\<close>

lemma HasPrefix_prefix: "HasPrefix s p \<longleftrightarrow> prefix p s"
  unfolding HasPrefix_def
  by (metis append_take_drop_id prefix_def prefix_length_le append_eq_conv_conj)

lemma HasSuffix_single: "HasSuffix s [c] \<longleftrightarrow> s \<noteq> [] \<and> last s = c"
  by (cases s rule: rev_cases) (auto simp: HasSuffix_def)

lemma TrimSuffix_slash: "TrimSuffix s ''/'' = stripSlash s"
  by (simp add: TrimSuffix_def stripSlash_def HasSuffix_single butlast_conv_take)

lemma IndexByte_nth: "IndexByte s c = Some m \<Longrightarrow> s ! m = c"
  by (induction s arbitrary: m) (auto split: if_splits)

lemma IndexByte_before: "IndexByte s c = Some m \<Longrightarrow> c \<notin> set (take m s)"
  by (induction s arbitrary: m) (auto split: if_splits)

lemma IndexByte_None: "IndexByte s c = None \<longleftrightarrow> c \<notin> set s"
  by (induction s) auto

lemma Split_ne: "Split s c \<noteq> []"
  by (subst Split.simps) (simp split: option.splits)

lemma Join_Cons: "es \<noteq> [] \<Longrightarrow> Join (e # es) sep = e @ sep @ Join es sep"
  by (cases es) simp_all

text \<open>Splitting loses nothing: joining the pieces with the separator gives the string back.\<close>

lemma Join_Split: "Join (Split s c) [c] = s"
proof (induction s c rule: Split.induct)
  case (1 s sep)
  show ?case
  proof (cases "IndexByte s sep")
    case None
    then show ?thesis by (subst Split.simps) simp
  next
    case (Some m)
    have m: "m < length s" and c: "s ! m = sep"
      using Some by (auto dest: IndexByte_less IndexByte_nth)
    have "Join (Split s sep) [sep] = take m s @ [sep] @ Join (Split (drop (m + 1) s) sep) [sep]"
      using Some by (subst Split.simps) (simp add: Join_Cons Split_ne)
    also have "\<dots> = take m s @ [sep] @ drop (m + 1) s"
      using "1.IH"[OF Some] by simp
    also have "\<dots> = s"
      using m c by (metis Cons_nth_drop_Suc Suc_eq_plus1 append_Cons append_Nil append_take_drop_id)
    finally show ?thesis .
  qed
qed

text \<open>No piece contains the separator.\<close>

lemma Split_no_sep: "p \<in> set (Split s c) \<Longrightarrow> c \<notin> set p"
proof (induction s c rule: Split.induct)
  case (1 s sep)
  show ?case
  proof (cases "IndexByte s sep")
    case None
    moreover from None have "sep \<notin> set s" by (simp add: IndexByte_None)
    ultimately show ?thesis using "1.prems" by (subst (asm) Split.simps) simp
  next
    case (Some m)
    then show ?thesis using "1.prems" "1.IH"[OF Some]
      by (subst (asm) Split.simps) (auto dest: IndexByte_before)
  qed
qed

text \<open>The loop of \<open>Split\<close> computes the segments of the specification.\<close>

lemma Split_segments: "Split s (CHR ''/'') = segments s"
proof (induction s)
  case Nil
  show ?case by (simp add: Split.simps)
next
  case (Cons c cs)
  show ?case
  proof (cases "c = CHR ''/''")
    case True
    then show ?thesis using Cons by (subst Split.simps) simp
  next
    case False
    show ?thesis
    proof (cases "IndexByte cs (CHR ''/'')")
      case None
      then have "segments cs = [cs]" using Cons by (subst (asm) Split.simps) simp
      then show ?thesis using False None by (subst Split.simps) simp
    next
      case (Some m)
      then have "segments cs = take m cs # Split (drop (m + 1) cs) (CHR ''/'')"
        using Cons by (subst (asm) Split.simps) simp
      then show ?thesis using False Some by (subst Split.simps) simp
    qed
  qed
qed

section \<open>The link normalizer\<close>

text \<open>
  C1. The link normalizer applies the four rules of the specification in their
  precedence: for every base URL and href the code's result is that of \<^const>\<open>normalize_spec\<close>
  (empty href: empty; prefix \<open>http\<close> or \<open>mailto:\<close>: unchanged; prefix \<open>/\<close>: the first three
  segments of the base rejoined with \<open>/\<close>, or the base without one trailing slash when it
  has fewer than three segments, followed by the href; otherwise the base without one
  trailing slash, \<open>/\<close>, the href). The two examples of the specification hold.
\<close>

theorem normalizeLink_rules:
  "normalizeLink baseURL href = normalize_spec baseURL href
   \<and> normalizeLink ''https://example.com/a/b'' ''/c'' = ''https://example.com/c''
   \<and> normalizeLink ''https://example.com/a/b'' ''c'' = ''https://example.com/a/b/c''"
proof (intro conjI)
  show "normalizeLink baseURL href = normalize_spec baseURL href"
    by (simp add: normalizeLink_def normalize_spec_def HasPrefix_prefix Split_segments
        TrimSuffix_slash Let_def)
  show "normalizeLink ''https://example.com/a/b'' ''/c'' = ''https://example.com/c''"
    by code_simp
  show "normalizeLink ''https://example.com/a/b'' ''c'' = ''https://example.com/a/b/c''"
    by code_simp
qed

text \<open>
  C8. Normalisation is idempotent on hrefs that are already absolute: when the href
  starts with \<open>http\<close>, normalising the normalised href gives the normalised href again
  (which is the href itself).
\<close>

theorem absolute_href_idempotent:
  "HasPrefix href ''http'' \<Longrightarrow>
   normalizeLink base (normalizeLink base href) = normalizeLink base href
   \<and> normalizeLink base href = href"
  by (simp add: normalizeLink_def)

text \<open>
  The hypothesis holds of \<open>https://example.com/x\<close>.
\<close>

theorem absolute_href_idempotent_witness:
  "HasPrefix ''https://example.com/x'' ''http''
   \<and> normalizeLink ''https://example.com/a/b''
        (normalizeLink ''https://example.com/a/b'' ''https://example.com/x'')
       = ''https://example.com/x''"
proof -
  have h: "HasPrefix ''https://example.com/x'' ''http''" by code_simp
  from absolute_href_idempotent[OF h, of "''https://example.com/a/b''"] h
  show ?thesis by simp
qed

text \<open>
  C3, as stated, fails. The href \<open>//host/path\<close> starts with \<open>/\<close>, so the code takes
  the root-relative branch: against \<open>https://example.com/a/b\<close> the result is
  \<open>https://example.com//host/path\<close>, not the path-relative join
  \<open>https://example.com/a/b///host/path\<close> of rule 4.
\<close>

theorem protocol_relative_not_rule4:
  "HasPrefix ''//host/path'' ''//''
   \<and> normalizeLink ''https://example.com/a/b'' ''//host/path'' = ''https://example.com//host/path''
   \<and> normalizeLink ''https://example.com/a/b'' ''//host/path''
       \<noteq> TrimSuffix ''https://example.com/a/b'' ''/'' @ ''/'' @ ''//host/path''"
  by code_simp

text \<open>
  C3, amended. For every base URL and every href beginning with \<open>//\<close>, the normalizer
  applies the root-relative branch (rule 3): the first three segments of the base
  rejoined with \<open>/\<close> (or, with fewer than three segments, the base without one trailing
  slash), followed directly by the href. The href is not special-cased, and the result
  keeps its double slash.
\<close>

theorem protocol_relative_root_branch:
  "HasPrefix href ''//'' \<Longrightarrow>
   normalizeLink baseURL href =
     (if length (Split baseURL (CHR ''/'')) \<ge> 3
      then Join (take 3 (Split baseURL (CHR ''/''))) ''/'' @ href
      else TrimSuffix baseURL ''/'' @ href)"
proof -
  assume h: "HasPrefix href ''//''"
  then obtain r where r: "href = CHR ''/'' # CHR ''/'' # r"
    by (auto simp: HasPrefix_prefix prefix_def)
  show ?thesis
    by (simp add: r normalizeLink_def HasPrefix_def Let_def)
qed

text \<open>
  The amended statement at \<open>//host/path\<close> against \<open>https://example.com/a/b\<close>.
\<close>

theorem protocol_relative_root_branch_witness:
  "HasPrefix ''//host/path'' ''//''
   \<and> normalizeLink ''https://example.com/a/b'' ''//host/path'' = ''https://example.com//host/path''"
proof -
  have h: "HasPrefix ''//host/path'' ''//''" by code_simp
  have e: "(if length (Split ''https://example.com/a/b'' (CHR ''/'')) \<ge> 3
      then Join (take 3 (Split ''https://example.com/a/b'' (CHR ''/''))) ''/'' @ ''//host/path''
      else TrimSuffix ''https://example.com/a/b'' ''/'' @ ''//host/path'') = ''https://example.com//host/path''"
    by code_simp
  have "normalizeLink ''https://example.com/a/b'' ''//host/path'' = ''https://example.com//host/path''"
    by (rule trans[OF protocol_relative_root_branch[OF h] e])
  with h show ?thesis by blast
qed

section \<open>The scraping loop\<close>

lemma eachNode_alt:
  "eachNode url results s =
     (if TrimSpace (Text s) = [] then results else results @ [resultOf url s])"
  by (simp add: eachNode_def resultOf_def Let_def)

lemma foldl_eachNode:
  "foldl (eachNode url) acc nodes =
     acc @ map (resultOf url) (filter (\<lambda>s. TrimSpace (Text s) \<noteq> []) nodes)"
  by (induction nodes arbitrary: acc) (simp_all add: eachNode_alt)

lemma scrapeWebsite_ok:
  assumes "Get url = Inr res" "StatusCode res = 200" "NewDocumentFromReader (Body res) = Inr doc"
  shows "scrapeWebsite Get NewDocumentFromReader Find url selector =
           Inr (map (resultOf url) (filter (\<lambda>s. TrimSpace (Text s) \<noteq> []) (Find doc selector)))"
  using assms by (simp add: scrapeWebsite_def foldl_eachNode)

lemma scrapeWebsite_Inr_cases:
  assumes "scrapeWebsite Get NewDocumentFromReader Find url selector = Inr results"
  obtains res doc where "Get url = Inr res" "StatusCode res = 200"
    "NewDocumentFromReader (Body res) = Inr doc"
  using assms by (auto simp: scrapeWebsite_def split: sum.splits if_splits)

lemma spaceEncodings_nonempty: "e \<in> set spaceEncodings \<Longrightarrow> e \<noteq> []"
  by (auto simp: spaceEncodings_def)

lemma find_Some_mem: "find P xs = Some x \<Longrightarrow> x \<in> set xs \<and> P x"
  by (induction xs) (auto split: if_splits)

lemma leadingSpace_0_iff:
  "leadingSpace s = 0 \<longleftrightarrow> (\<forall>e \<in> set spaceEncodings. \<not> HasPrefix s e)"
proof
  assume "leadingSpace s = 0"
  then have "find (HasPrefix s) spaceEncodings = None"
    by (auto simp: leadingSpace_def split: option.splits
        dest!: find_Some_mem dest: spaceEncodings_nonempty)
  then show "\<forall>e \<in> set spaceEncodings. \<not> HasPrefix s e"
    by (simp add: find_None_iff)
next
  assume "\<forall>e \<in> set spaceEncodings. \<not> HasPrefix s e"
  then have "find (HasPrefix s) spaceEncodings = None"
    by (simp add: find_None_iff)
  then show "leadingSpace s = 0" by (simp add: leadingSpace_def)
qed

lemma leadingSpace_TrimLeftSpace: "leadingSpace (TrimLeftSpace s) = 0"
  by (induction s rule: TrimLeftSpace.induct) (subst TrimLeftSpace.simps, simp)

lemma TrimRightSpace_prefix: "prefix (TrimRightSpace s) s"
proof (induction s rule: TrimRightSpace.induct)
  case (1 s)
  show ?case
  proof (cases "trailingSpace s = 0")
    case True
    then show ?thesis by (subst TrimRightSpace.simps) simp
  next
    case False
    have "prefix (TrimRightSpace (take (length s - trailingSpace s) s)) (take (length s - trailingSpace s) s)"
      using 1 False by simp
    also have "prefix (take (length s - trailingSpace s) s) s" by (rule take_is_prefix)
    finally show ?thesis using False by (subst TrimRightSpace.simps) simp
  qed
qed

lemma leadingSpace_prefix:
  assumes "prefix t u" "leadingSpace u = 0"
  shows "leadingSpace t = 0"
  using assms unfolding leadingSpace_0_iff HasPrefix_prefix
  by (meson prefix_order.trans)

lemma leadingSpace_TrimSpace: "leadingSpace (TrimSpace s) = 0"
  unfolding TrimSpace_def
  by (rule leadingSpace_prefix[OF TrimRightSpace_prefix leadingSpace_TrimLeftSpace])

lemma TrimSpace_not_whitespaceOnly: "TrimSpace s \<noteq> [] \<Longrightarrow> \<not> whitespaceOnly (TrimSpace s)"
  by (subst whitespaceOnly.simps) (simp add: leadingSpace_TrimSpace)

subsection \<open>White space\<close>

lemma spaceEncodings_width:
  "e \<in> set spaceEncodings \<Longrightarrow> e \<noteq> [] \<and> length e = runeWidth (hd e)"
  by (auto simp: spaceEncodings_def runeWidth_def)

lemma leadingSpace_Some:
  assumes "leadingSpace s \<noteq> 0"
  obtains e where "e \<in> set spaceEncodings" "HasPrefix s e" "leadingSpace s = length e"
  using assms by (auto simp: leadingSpace_def split: option.splits dest: find_Some_mem)

lemma leadingSpace_append:
  assumes "w \<in> set spaceEncodings"
  shows "leadingSpace (w @ r) = length w"
proof -
  have w: "w \<noteq> []" "length w = runeWidth (hd w)" using spaceEncodings_width[OF assms] by simp_all
  have "HasPrefix (w @ r) w" by (simp add: HasPrefix_prefix)
  then have "leadingSpace (w @ r) \<noteq> 0"
    using assms by (auto simp: leadingSpace_0_iff)
  then obtain e where e: "e \<in> set spaceEncodings" "HasPrefix (w @ r) e" "leadingSpace (w @ r) = length e"
    by (rule leadingSpace_Some)
  have e': "e \<noteq> []" "length e = runeWidth (hd e)" using spaceEncodings_width[OF e(1)] by simp_all
  have "hd e = hd (w @ r)" using e(2) e'(1) by (auto simp: HasPrefix_prefix prefix_def)
  then have "hd e = hd w" using w(1) by simp
  then show ?thesis using e(3) e'(2) w(2) by simp
qed

lemma whitespaceOnly_concat:
  "set ws \<subseteq> set spaceEncodings \<Longrightarrow> whitespaceOnly (concat ws)"
proof (induction ws)
  case Nil
  show ?case by (subst whitespaceOnly.simps) simp
next
  case (Cons w ws)
  then have w: "w \<in> set spaceEncodings" and r: "whitespaceOnly (concat ws)" by simp_all
  have "w \<noteq> []" using spaceEncodings_width[OF w] by simp
  then show ?case using r by (subst whitespaceOnly.simps) (simp add: leadingSpace_append[OF w])
qed

lemma whitespaceOnly_decompose:
  "whitespaceOnly s \<Longrightarrow> \<exists>ws. set ws \<subseteq> set spaceEncodings \<and> s = concat ws"
proof (induction s rule: whitespaceOnly.induct)
  case (1 s)
  show ?case
  proof (cases "s = []")
    case True
    then have "set [] \<subseteq> set spaceEncodings \<and> s = concat []" by simp
    then show ?thesis by blast
  next
    case False
    have l: "leadingSpace s \<noteq> 0" and rest: "whitespaceOnly (drop (leadingSpace s) s)"
      using "1.prems" False by (subst (asm) whitespaceOnly.simps, simp split: if_splits)+
    from l obtain e where e: "e \<in> set spaceEncodings" "HasPrefix s e" "leadingSpace s = length e"
      by (rule leadingSpace_Some)
    from "1.IH"[OF False l rest] obtain ws where ws: "set ws \<subseteq> set spaceEncodings"
      "drop (leadingSpace s) s = concat ws" by blast
    have "s = e @ drop (length e) s" using e(2) by (auto simp: HasPrefix_prefix prefix_def)
    then have "set (e # ws) \<subseteq> set spaceEncodings \<and> s = concat (e # ws)"
      using e(1,3) ws by simp
    then show ?thesis by blast
  qed
qed

text \<open>A string is white space only exactly when it is a sequence of white-space runes.\<close>

lemma whitespaceOnly_iff:
  "whitespaceOnly s \<longleftrightarrow> (\<exists>ws. set ws \<subseteq> set spaceEncodings \<and> s = concat ws)"
  using whitespaceOnly_concat whitespaceOnly_decompose by blast

lemma TrimLeftSpace_empty_iff: "TrimLeftSpace s = [] \<longleftrightarrow> whitespaceOnly s"
proof (induction s rule: TrimLeftSpace.induct)
  case (1 s)
  show ?case
  proof (cases "leadingSpace s = 0")
    case True
    then show ?thesis by (subst TrimLeftSpace.simps, subst whitespaceOnly.simps) simp
  next
    case False
    then have "s \<noteq> []" using leadingSpace_le[of s] by auto
    then show ?thesis using False 1
      by (subst TrimLeftSpace.simps, subst whitespaceOnly.simps) simp
  qed
qed

lemma trailingSpace_Some:
  assumes "trailingSpace s \<noteq> 0"
  obtains e where "e \<in> set spaceEncodings" "HasSuffix s e" "trailingSpace s = length e"
  using assms by (auto simp: trailingSpace_def split: option.splits dest: find_Some_mem)

lemma TrimRightSpace_empty:
  "TrimRightSpace s = [] \<Longrightarrow> \<exists>ws. set ws \<subseteq> set spaceEncodings \<and> s = concat ws"
proof (induction s rule: TrimRightSpace.induct)
  case (1 s)
  show ?case
  proof (cases "trailingSpace s = 0")
    case True
    then have "s = []" using "1.prems" by (subst (asm) TrimRightSpace.simps) simp
    then have "set [] \<subseteq> set spaceEncodings \<and> s = concat []" by simp
    then show ?thesis by blast
  next
    case False
    then have "TrimRightSpace (take (length s - trailingSpace s) s) = []"
      using "1.prems" by (subst (asm) TrimRightSpace.simps) simp
    from "1.IH"[OF False this] obtain ws where ws: "set ws \<subseteq> set spaceEncodings"
      "take (length s - trailingSpace s) s = concat ws" by blast
    from False obtain e where e: "e \<in> set spaceEncodings" "HasSuffix s e" "trailingSpace s = length e"
      by (rule trailingSpace_Some)
    have "s = take (length s - length e) s @ e"
      using e(2) by (metis HasSuffix_def append_take_drop_id)
    then have "set (ws @ [e]) \<subseteq> set spaceEncodings \<and> s = concat (ws @ [e])"
      using e(1,3) ws by simp
    then show ?thesis by blast
  qed
qed

text \<open>A text trims to the empty string exactly when it is white space only.\<close>

lemma TrimSpace_empty_iff: "TrimSpace s = [] \<longleftrightarrow> whitespaceOnly s"
proof
  assume "whitespaceOnly s"
  then have "TrimLeftSpace s = []" by (simp add: TrimLeftSpace_empty_iff)
  moreover have "TrimRightSpace [] = []"
    by (subst TrimRightSpace.simps) (simp add: trailingSpace_def HasSuffix_def spaceEncodings_def)
  ultimately show "TrimSpace s = []" by (simp add: TrimSpace_def)
next
  assume "TrimSpace s = []"
  then have "whitespaceOnly (TrimLeftSpace s)"
    using TrimRightSpace_empty[of "TrimLeftSpace s"] by (simp add: TrimSpace_def whitespaceOnly_iff)
  then have "TrimLeftSpace s = []"
    using leadingSpace_TrimLeftSpace[of s] by (subst (asm) whitespaceOnly.simps) (simp split: if_splits)
  then show "whitespaceOnly s" by (simp add: TrimLeftSpace_empty_iff)
qed

text \<open>What \<open>TrimSpace\<close> returns neither starts nor ends with a white-space rune.\<close>

lemma trailingSpace_TrimRightSpace: "trailingSpace (TrimRightSpace s) = 0"
  by (induction s rule: TrimRightSpace.induct) (subst TrimRightSpace.simps, simp)

lemma TrimSpace_trimmed: "leadingSpace (TrimSpace s) = 0 \<and> trailingSpace (TrimSpace s) = 0"
  by (simp add: leadingSpace_TrimSpace) (simp add: TrimSpace_def trailingSpace_TrimRightSpace)

subsection \<open>The results\<close>

text \<open>
  C5. Whenever \<open>scrapeWebsite\<close> returns results, no title is empty or consists of
  white space only, and the titles are, in document order, the trimmed texts of exactly
  those matched nodes whose trimmed text is not empty: a node whose text trims to the
  empty string is skipped.
\<close>

theorem titles_trimmed_nonblank:
  assumes "scrapeWebsite Get NewDocumentFromReader Find url selector = Inr results"
  shows "(\<forall>r \<in> set results. Title r \<noteq> [] \<and> \<not> whitespaceOnly (Title r))
       \<and> (\<exists>res doc. Get url = Inr res \<and> NewDocumentFromReader (Body res) = Inr doc
            \<and> map Title results =
                map (\<lambda>s. TrimSpace (Text s))
                  (filter (\<lambda>s. TrimSpace (Text s) \<noteq> []) (Find doc selector)))"
proof -
  from assms obtain res doc where ok: "Get url = Inr res" "StatusCode res = 200"
    "NewDocumentFromReader (Body res) = Inr doc"
    by (rule scrapeWebsite_Inr_cases)
  let ?kept = "filter (\<lambda>s. TrimSpace (Text s) \<noteq> []) (Find doc selector)"
  have results: "results = map (resultOf url) ?kept"
    using assms scrapeWebsite_ok[of Get url res NewDocumentFromReader doc Find selector, OF ok] by simp
  have titles: "map Title results = map (\<lambda>s. TrimSpace (Text s)) ?kept"
    by (simp add: results resultOf_def)
  have "\<forall>r \<in> set results. Title r \<noteq> [] \<and> \<not> whitespaceOnly (Title r)"
    by (auto simp: results resultOf_def dest: TrimSpace_not_whitespaceOnly)
  with ok titles show ?thesis by blast
qed

text \<open>
  On the example page the two nodes with text give the results; neither title is blank.
\<close>

theorem titles_trimmed_nonblank_witness:
  "scrapeWebsite ok200 parsed (\<lambda>d sel. page) ''http://h.com/p/q'' ''a''
     = Inr [\<lparr>Title = ''a'', Link = []\<rparr>, \<lparr>Title = ''b'', Link = ''http://h.com/x''\<rparr>]
   \<and> \<not> whitespaceOnly ''a'' \<and> \<not> whitespaceOnly ''b''"
proof -
  have e: "scrapeWebsite ok200 parsed (\<lambda>d sel. page) ''http://h.com/p/q'' ''a''
     = Inr [\<lparr>Title = ''a'', Link = []\<rparr>, \<lparr>Title = ''b'', Link = ''http://h.com/x''\<rparr>]"
    by code_simp
  from titles_trimmed_nonblank[OF e] e show ?thesis by simp
qed

text \<open>
  C6. When the page was fetched with status 200 and parsed, and the selector matches no
  node, or only nodes whose trimmed text is empty, \<open>scrapeWebsite\<close> returns the empty
  sequence of results, and no error.
\<close>

theorem no_titled_nodes_empty_result:
  assumes "Get url = Inr res" "StatusCode res = 200" "NewDocumentFromReader (Body res) = Inr doc"
    and "\<forall>s \<in> set (Find doc selector). TrimSpace (Text s) = []"
  shows "scrapeWebsite Get NewDocumentFromReader Find url selector = Inr []"
proof -
  have "filter (\<lambda>s. TrimSpace (Text s) \<noteq> []) (Find doc selector) = []"
    using assms(4) by (simp add: filter_empty_conv)
  then show ?thesis
    using scrapeWebsite_ok[of Get url res NewDocumentFromReader doc Find selector, OF assms(1-3)]
    by simp
qed

text \<open>
  A page whose matched nodes are all blank, and a page without matched nodes.
\<close>

theorem no_titled_nodes_empty_result_witness:
  "(scrapeWebsite ok200 parsed (\<lambda>d sel. blankPage) ''http://h.com/p/q'' ''a''
      :: string error + ScrapeResult list) = Inr []
   \<and> (scrapeWebsite ok200 parsed (\<lambda>d sel. []) ''http://h.com/p/q'' ''a''
      :: string error + ScrapeResult list) = Inr []"
proof -
  let ?res = "\<lparr>StatusCode = 200, Status = ''200 OK'', Body = ()\<rparr>"
  have g: "ok200 ''http://h.com/p/q'' = Inr ?res" by (simp add: ok200_def)
  have s: "StatusCode ?res = 200" by simp
  have p: "parsed (Body ?res) = Inr ()" by (simp add: parsed_def)
  have b: "\<forall>s \<in> set ((\<lambda>d sel. blankPage) () ''a''). TrimSpace (Text s) = []"
    unfolding blankPage_def by code_simp
  have n: "\<forall>s \<in> set ((\<lambda>(d::unit) (sel::string). ([]::Selection list)) () ''a''). TrimSpace (Text s) = []"
    by simp
  show ?thesis
    using no_titled_nodes_empty_result[of ok200 _ ?res parsed "()" "\<lambda>d sel. blankPage" "''a''", OF g s p b]
      no_titled_nodes_empty_result[of ok200 _ ?res parsed "()" "\<lambda>d sel. []" "''a''", OF g s p n]
    by simp
qed

text \<open>
  C10. A matched node with non-empty trimmed text and no \<open>href\<close> attribute at all still
  gives a result, whose link is the empty string: the callback appends exactly that
  result, as it does for the same node with an empty \<open>href\<close>; nothing is normalised.
\<close>

theorem absent_href_empty_link:
  assumes "Get url = Inr res" "StatusCode res = 200" "NewDocumentFromReader (Body res) = Inr doc"
    and "s \<in> set (Find doc selector)"
    and "map_of (Attrs s) ''href'' = None" and "TrimSpace (Text s) \<noteq> []"
  shows "(\<exists>results. scrapeWebsite Get NewDocumentFromReader Find url selector = Inr results
            \<and> \<lparr>Title = TrimSpace (Text s), Link = []\<rparr> \<in> set results)
       \<and> eachNode url acc s = acc @ [\<lparr>Title = TrimSpace (Text s), Link = []\<rparr>]
       \<and> eachNode url acc s = eachNode url acc (s\<lparr>Attrs := (''href'', []) # Attrs s\<rparr>)"
proof -
  have r: "resultOf url s = \<lparr>Title = TrimSpace (Text s), Link = []\<rparr>"
    using assms(5) by (simp add: resultOf_def normalizeLink_def)
  have "resultOf url s \<in> set (map (resultOf url) (filter (\<lambda>s. TrimSpace (Text s) \<noteq> []) (Find doc selector)))"
    using assms(4,6) by simp
  then have 1: "\<exists>results. scrapeWebsite Get NewDocumentFromReader Find url selector = Inr results
            \<and> \<lparr>Title = TrimSpace (Text s), Link = []\<rparr> \<in> set results"
    using scrapeWebsite_ok[of Get url res NewDocumentFromReader doc Find selector, OF assms(1-3)] r by simp
  have 2: "eachNode url acc s = acc @ [\<lparr>Title = TrimSpace (Text s), Link = []\<rparr>]"
    using assms(6) r by (simp add: eachNode_alt)
  have 3: "eachNode url acc s = eachNode url acc (s\<lparr>Attrs := (''href'', []) # Attrs s\<rparr>)"
    using assms(5,6) by (simp add: eachNode_def normalizeLink_def Let_def)
  from 1 2 3 show ?thesis by blast
qed

text \<open>
  The first node of the example page has no \<open>href\<close>: its result has the empty link.
\<close>

theorem absent_href_empty_link_witness:
  "scrapeWebsite ok200 parsed (\<lambda>d sel. page) ''http://h.com/p/q'' ''a''
     = Inr [\<lparr>Title = ''a'', Link = []\<rparr>, \<lparr>Title = ''b'', Link = ''http://h.com/x''\<rparr>]
   \<and> eachNode ''http://h.com/p/q'' [] \<lparr>Text = '' a '', Attrs = [(''class'', ''x'')]\<rparr>
       = [\<lparr>Title = ''a'', Link = []\<rparr>]"
proof -
  let ?res = "\<lparr>StatusCode = 200, Status = ''200 OK'', Body = ()\<rparr>"
  let ?s = "\<lparr>Text = '' a '', Attrs = [(''class'', ''x'')]\<rparr>"
  have g: "ok200 ''http://h.com/p/q'' = Inr ?res" by (simp add: ok200_def)
  have s: "StatusCode ?res = 200" by simp
  have p: "parsed (Body ?res) = Inr ()" by (simp add: parsed_def)
  have m: "?s \<in> set ((\<lambda>d sel. page) () ''a'')" by (simp add: page_def)
  have a: "map_of (Attrs ?s) ''href'' = None" by simp
  have t: "TrimSpace (Text ?s) = ''a''" by code_simp
  then have t': "TrimSpace (Text ?s) \<noteq> []" by simp
  have e: "scrapeWebsite ok200 parsed (\<lambda>d sel. page) ''http://h.com/p/q'' ''a''
     = Inr [\<lparr>Title = ''a'', Link = []\<rparr>, \<lparr>Title = ''b'', Link = ''http://h.com/x''\<rparr>]"
    by code_simp
  from absent_href_empty_link[of ok200 _ ?res parsed "()" ?s "\<lambda>d sel. page" "''a''" "[]", OF g s p m a t']
  have "eachNode ''http://h.com/p/q'' [] ?s = [] @ [\<lparr>Title = TrimSpace (Text ?s), Link = []\<rparr>]"
    by blast
  with e t show ?thesis by simp
qed

section \<open>The status check\<close>

lemma digitVal_digit: "n < 10 \<Longrightarrow> digitVal (digit n) = n"
proof -
  assume "n < 10"
  then consider "n = 0" | "n = 1" | "n = 2" | "n = 3" | "n = 4" | "n = 5" | "n = 6" | "n = 7" | "n = 8" | "n = 9"
    by atomize_elim arith
  then show ?thesis by cases (simp_all add: digit_def digitVal_def)
qed

lemma digit_not_minus: "n < 10 \<Longrightarrow> digit n \<noteq> CHR ''-''"
proof -
  assume "n < 10"
  then consider "n = 0" | "n = 1" | "n = 2" | "n = 3" | "n = 4" | "n = 5" | "n = 6" | "n = 7" | "n = 8" | "n = 9"
    by atomize_elim arith
  then show ?thesis by cases (simp_all add: digit_def)
qed

lemma readDecimal_decimal: "readDecimal (decimal n) = n"
proof (induction n rule: decimal.induct)
  case (1 n)
  show ?case
  proof (cases "n < 10")
    case True
    then show ?thesis by (subst decimal.simps) (simp add: readDecimal_def digitVal_digit)
  next
    case False
    then have "readDecimal (decimal n) = 10 * readDecimal (decimal (n div 10)) + digitVal (digit (n mod 10))"
      by (subst decimal.simps) (simp add: readDecimal_def)
    also have "\<dots> = 10 * (n div 10) + n mod 10"
      using 1 False by (simp add: digitVal_digit)
    finally show ?thesis by simp
  qed
qed

lemma decimal_hd: "decimal n \<noteq> [] \<and> hd (decimal n) \<noteq> CHR ''-''"
proof (induction n rule: decimal.induct)
  case (1 n)
  show ?case
  proof (cases "n < 10")
    case True
    then show ?thesis by (subst (1 2) decimal.simps) (simp add: digit_not_minus)
  next
    case False
    then show ?thesis using 1 by (subst (1 2) decimal.simps) simp
  qed
qed

lemma readInt_formatInt: "readInt (formatInt i) = i"
proof (cases "i < 0")
  case True
  then show ?thesis by (simp add: readInt_def formatInt_def readDecimal_decimal)
next
  case False
  obtain c cs where d: "decimal (nat i) = c # cs" "c \<noteq> CHR ''-''"
    using decimal_hd[of "nat i"] by (cases "decimal (nat i)") auto
  have "readInt (decimal (nat i)) = int (readDecimal (decimal (nat i)))"
    by (simp add: readInt_def d)
  then show ?thesis using False by (simp add: formatInt_def readDecimal_decimal)
qed

lemma formatInt_inj: "formatInt i = formatInt j \<Longrightarrow> i = j"
  by (metis readInt_formatInt)

subsection \<open>The status code in the message\<close>

lemma digit_not_space: "n < 10 \<Longrightarrow> digit n \<noteq> CHR '' ''"
proof -
  assume "n < 10"
  then consider "n = 0" | "n = 1" | "n = 2" | "n = 3" | "n = 4" | "n = 5" | "n = 6" | "n = 7"
    | "n = 8" | "n = 9"
    by atomize_elim arith
  then show ?thesis by cases (simp_all add: digit_def)
qed

lemma decimal_no_space: "CHR '' '' \<notin> set (decimal n)"
proof (induction n rule: decimal.induct)
  case (1 n)
  show ?case
  proof (cases "n < 10")
    case True
    then show ?thesis using digit_not_space[of n] by (subst decimal.simps) auto
  next
    case False
    then show ?thesis using 1 digit_not_space[of "n mod 10"] by (subst decimal.simps) auto
  qed
qed

lemma formatInt_no_space: "CHR '' '' \<notin> set (formatInt i)"
  by (simp add: formatInt_def decimal_no_space)

lemma errorCode_statusCodeError:
  "errorCode (Errorf (statusCodeError code status)) = Some code"
proof -
  have "takeWhile (\<lambda>c. c \<noteq> CHR '' '') (formatInt code @ CHR '' '' # status) = formatInt code"
    using formatInt_no_space[of code] by (auto simp: takeWhile_tail takeWhile_eq_all_conv)
  then show ?thesis
    by (simp add: errorCode_def statusCodeError_def HasPrefix_def readInt_formatInt)
qed

subsection \<open>The errors of \<open>scrapeWebsite\<close>\<close>

text \<open>
  C4, as stated, fails: an error is returned although the status is exactly 200, when
  reading the body of the response fails.
\<close>

theorem error_with_status_200:
  "ok200 ''https://example.com'' = Inr \<lparr>StatusCode = 200, Status = ''200 OK'', Body = ()\<rparr>
   \<and> StatusCode \<lparr>StatusCode = 200, Status = ''200 OK'', Body = ()\<rparr> = 200
   \<and> scrapeWebsite ok200 truncated (\<lambda>(d::unit) sel. []) ''https://example.com'' ''a''
      = Inl (Passed ''unexpected EOF'')"
  by (simp add: scrapeWebsite_def ok200_def truncated_def)

text \<open>
  C4, amended. When the GET yields a response, \<open>scrapeWebsite\<close> returns the status
  error exactly when the status is not exactly 200 (so 201 or 204 fail too). The status
  error is the one built at the status check, the specification's HTTPStatusError: it
  carries the numeric status code, which \<^const>\<open>errorCode\<close> reads back from the value, and
  for 404 its message is \<open>status code error: 404\<close> and the status text. It is not a
  generic error: the other errors that \<open>scrapeWebsite\<close> returns are the error of the GET
  when the request fails and the parser's error when the body of a 200 response cannot
  be read, each passed on unchanged, and they carry no status code. With status 200 and a
  parsed body there is no error.
\<close>

theorem status_error_iff_not_200:
  "(Get url = Inl e \<longrightarrow>
      scrapeWebsite Get NewDocumentFromReader Find url selector = Inl (Passed e))
   \<and> (Get url = Inr res \<longrightarrow>
        ((\<exists>msg. scrapeWebsite Get NewDocumentFromReader Find url selector = Inl (Errorf msg))
           \<longleftrightarrow> StatusCode res \<noteq> 200)
      \<and> (StatusCode res \<noteq> 200 \<longrightarrow>
            scrapeWebsite Get NewDocumentFromReader Find url selector =
              Inl (Errorf (''status code error: '' @ formatInt (StatusCode res) @ '' '' @ Status res))
          \<and> (\<forall>err. scrapeWebsite Get NewDocumentFromReader Find url selector = Inl err
                 \<longrightarrow> errorCode err = Some (StatusCode res)))
      \<and> (StatusCode res = 404 \<longrightarrow>
            scrapeWebsite Get NewDocumentFromReader Find url selector =
              Inl (Errorf (''status code error: 404 '' @ Status res)))
      \<and> (StatusCode res = 200 \<longrightarrow>
            (NewDocumentFromReader (Body res) = Inl e \<longrightarrow>
               scrapeWebsite Get NewDocumentFromReader Find url selector = Inl (Passed e))
          \<and> (NewDocumentFromReader (Body res) = Inr doc \<longrightarrow>
               (\<exists>results. scrapeWebsite Get NewDocumentFromReader Find url selector = Inr results))))
   \<and> ((\<exists>msg. scrapeWebsite Get NewDocumentFromReader Find url selector = Inl (Errorf msg))
        \<longleftrightarrow> (\<exists>r. Get url = Inr r \<and> StatusCode r \<noteq> 200))
   \<and> errorCode (Passed e) = None"
proof -
  let ?S = "scrapeWebsite Get NewDocumentFromReader Find url selector"
  have f: "formatInt 404 = ''404''" by code_simp
  have 1: "Get url = Inl e \<longrightarrow> ?S = Inl (Passed e)"
    by (simp add: scrapeWebsite_def)
  have bad: "?S = Inl (Errorf (statusCodeError (StatusCode res) (Status res)))"
    if "Get url = Inr res" "StatusCode res \<noteq> 200"
    using that by (simp add: scrapeWebsite_def)
  have good: "\<not> (\<exists>msg. ?S = Inl (Errorf msg))" if "Get url = Inr res" "StatusCode res = 200"
    using that by (simp add: scrapeWebsite_def split: sum.splits)
  have 2: "Get url = Inr res \<longrightarrow>
      ((\<exists>msg. ?S = Inl (Errorf msg)) \<longleftrightarrow> StatusCode res \<noteq> 200)"
    using bad good by blast
  have 3: "Get url = Inr res \<longrightarrow> StatusCode res \<noteq> 200 \<longrightarrow>
      ?S = Inl (Errorf (''status code error: '' @ formatInt (StatusCode res) @ '' '' @ Status res))
      \<and> (\<forall>err. ?S = Inl err \<longrightarrow> errorCode err = Some (StatusCode res))"
  proof (intro impI)
    assume a: "Get url = Inr res" "StatusCode res \<noteq> 200"
    from bad[OF a] have s: "?S = Inl (Errorf (statusCodeError (StatusCode res) (Status res)))" .
    then have "\<forall>err. ?S = Inl err \<longrightarrow> errorCode err = Some (StatusCode res)"
      by (simp add: errorCode_statusCodeError)
    moreover have "?S = Inl (Errorf (''status code error: '' @ formatInt (StatusCode res)
        @ '' '' @ Status res))"
      using s by (simp add: statusCodeError_def)
    ultimately show "?S = Inl (Errorf (''status code error: '' @ formatInt (StatusCode res)
        @ '' '' @ Status res))
      \<and> (\<forall>err. ?S = Inl err \<longrightarrow> errorCode err = Some (StatusCode res))" by blast
  qed
  have 4: "Get url = Inr res \<longrightarrow> StatusCode res = 404 \<longrightarrow>
      ?S = Inl (Errorf (''status code error: 404 '' @ Status res))"
    by (simp add: scrapeWebsite_def statusCodeError_def f)
  have 5: "Get url = Inr res \<longrightarrow> StatusCode res = 200 \<longrightarrow>
      (NewDocumentFromReader (Body res) = Inl e \<longrightarrow> ?S = Inl (Passed e))
      \<and> (NewDocumentFromReader (Body res) = Inr doc \<longrightarrow> (\<exists>results. ?S = Inr results))"
    by (simp add: scrapeWebsite_def)
  have 6: "(\<exists>msg. ?S = Inl (Errorf msg)) \<longleftrightarrow> (\<exists>r. Get url = Inr r \<and> StatusCode r \<noteq> 200)"
    by (cases "Get url") (auto simp: scrapeWebsite_def split: sum.splits)
  have 7: "errorCode (Passed e) = None" by (simp add: errorCode_def)
  from 1 2 3 4 5 6 7 show ?thesis by blast
qed

text \<open>
  A response with status 404, a refused connection, and a 200 response whose body breaks
  off.
\<close>

theorem status_error_iff_not_200_witness:
  "scrapeWebsite notFound parsed (\<lambda>d sel. page) ''https://example.com/missing'' ''a''
      = Inl (Errorf ''status code error: 404 404 Not Found'')
   \<and> errorCode (Errorf ''status code error: 404 404 Not Found'' :: string error) = Some 404
   \<and> scrapeWebsite refused parsed (\<lambda>d sel. page) ''https://example.com/missing'' ''a''
      = Inl (Passed ''connection refused'')
   \<and> scrapeWebsite ok200 truncated (\<lambda>(d::unit) sel. page) ''https://example.com/missing'' ''a''
      = Inl (Passed ''unexpected EOF'')"
proof -
  let ?url = "''https://example.com/missing''"
  let ?r404 = "\<lparr>StatusCode = 404, Status = ''404 Not Found'', Body = ()\<rparr>"
  let ?r200 = "\<lparr>StatusCode = 200, Status = ''200 OK'', Body = ()\<rparr>"
  note a = status_error_iff_not_200[where Get = notFound and url = ?url and res = ?r404
      and NewDocumentFromReader = parsed and Find = "\<lambda>d sel. page" and selector = "''a''"
      and e = "''x''" and doc = "()"]
  have g: "notFound ?url = Inr ?r404" by (simp add: notFound_def)
  have sc: "StatusCode ?r404 = 404" "StatusCode ?r404 \<noteq> 200" "Status ?r404 = ''404 Not Found''"
    by simp_all
  have "scrapeWebsite notFound parsed (\<lambda>d sel. page) ?url ''a''
      = Inl (Errorf (''status code error: 404 '' @ Status ?r404))"
    using a g sc(1) by blast
  then have s: "scrapeWebsite notFound parsed (\<lambda>d sel. page) ?url ''a''
      = Inl (Errorf ''status code error: 404 404 Not Found'')"
    by simp
  have "errorCode (Errorf ''status code error: 404 404 Not Found'' :: string error)
      = Some (StatusCode ?r404)"
    using a g sc(2) s by blast
  then have c: "errorCode (Errorf ''status code error: 404 404 Not Found'' :: string error)
      = Some 404"
    by simp
  note b = status_error_iff_not_200[where Get = refused and url = ?url and res = ?r404
      and NewDocumentFromReader = parsed and Find = "\<lambda>d sel. page" and selector = "''a''"
      and e = "''connection refused''" and doc = "()"]
  have t: "scrapeWebsite refused parsed (\<lambda>d sel. page) ?url ''a'' = Inl (Passed ''connection refused'')"
    using b by (simp add: refused_def)
  note d = status_error_iff_not_200[where Get = ok200 and url = ?url and res = ?r200
      and NewDocumentFromReader = truncated and Find = "\<lambda>(d::unit) sel. page" and selector = "''a''"
      and e = "''unexpected EOF''" and doc = "()"]
  have p: "scrapeWebsite ok200 truncated (\<lambda>(d::unit) sel. page) ?url ''a''
      = Inl (Passed ''unexpected EOF'')"
    using d by (simp add: ok200_def truncated_def)
  from s c t p show ?thesis by blast
qed

section \<open>The visit history\<close>

subsection \<open>Slices and \<open>append\<close>\<close>

lemma length_elems: "wfSlice st s \<Longrightarrow> length (elems st s) = len s"
  by (auto simp: wfSlice_def elems_def)

lemma elems_sliceTo: "j \<le> len s \<Longrightarrow> elems st (sliceTo s j) = take j (elems st s)"
  by (simp add: elems_def sliceTo_def min_def)

lemma elems_sliceFrom: "elems st (sliceFrom s i) = drop i (elems st s)"
  by (simp add: elems_def sliceFrom_def drop_take add.commute)

lemma wfSlice_sliceTo: "wfSlice st s \<Longrightarrow> j \<le> cap s \<Longrightarrow> wfSlice st (sliceTo s j)"
  by (simp add: wfSlice_def sliceTo_def)

lemma wfSlice_sliceFrom: "wfSlice st s \<Longrightarrow> i \<le> len s \<Longrightarrow> wfSlice st (sliceFrom s i)"
  by (auto simp: wfSlice_def sliceFrom_def)

lemma appendSlice_elems:
  assumes "wfSlice st s" and "appendSlice grow s vs st = (s', st')"
  shows "elems st' s' = elems st s @ vs"
proof (cases "len s + length vs \<le> cap s")
  case True
  let ?a = "arrays st (arr s)"
  have s': "s' = s\<lparr>len := len s + length vs\<rparr>" and st': "st' = writeAt s (len s) vs st"
    using assms(2) True by (simp_all add: appendSlice_def Let_def)
  have l: "off s + len s \<le> length ?a" using assms(1) True by (simp add: wfSlice_def)
  have "elems st' s' = take (len s + length vs)
          (drop (off s) (take (off s + len s) ?a @ vs @ drop (off s + len s + length vs) ?a))"
    by (simp add: s' st' elems_def writeAt_def Let_def)
  also have "drop (off s) (take (off s + len s) ?a @ vs @ drop (off s + len s + length vs) ?a)
      = take (len s) (drop (off s) ?a) @ vs @ drop (off s + len s + length vs) ?a"
    using l by (simp add: drop_take)
  also have "take (len s + length vs) \<dots> = take (len s) (drop (off s) ?a) @ vs"
    using l by simp
  finally show ?thesis by (simp add: elems_def)
next
  case False
  then show ?thesis using assms length_elems[OF assms(1)]
    by (auto simp: appendSlice_def Let_def elems_def)
qed

lemma appendSlice_wf:
  assumes "wfSlice st s" and "appendSlice grow s vs st = (s', st')"
  shows "wfSlice st' s'"
proof (cases "len s + length vs \<le> cap s")
  case True
  then show ?thesis using assms
    by (auto simp: appendSlice_def Let_def wfSlice_def writeAt_def)
next
  case False
  then show ?thesis using assms length_elems[OF assms(1)]
    by (auto simp: appendSlice_def Let_def wfSlice_def)
qed

lemma appendSlice_len:
  "appendSlice grow s vs st = (s', st') \<Longrightarrow> len s' = len s + length vs"
  by (auto simp: appendSlice_def Let_def split: if_splits)

lemma appendSlice_visitedURLs:
  "appendSlice grow s vs st = (s', st') \<Longrightarrow> visitedURLs st' = visitedURLs st"
  by (auto simp: appendSlice_def Let_def writeAt_def split: if_splits)

lemma wfSlice_visitedURLs_update [simp]:
  "wfSlice (st\<lparr>visitedURLs := v\<rparr>) s = wfSlice st s"
  by (simp add: wfSlice_def)

lemma elems_visitedURLs_update [simp]:
  "elems (st\<lparr>visitedURLs := v\<rparr>) s = elems st s"
  by (simp add: elems_def)

lemma rangeFind_None: "rangeFind xs u = None \<longleftrightarrow> u \<notin> set xs"
  by (induction xs) auto

lemma rangeFind_Some:
  "rangeFind xs u = Some i \<Longrightarrow> i < length xs \<and> xs ! i = u \<and> u \<notin> set (take i xs)"
  by (induction xs arbitrary: i) (auto split: if_splits)

lemma rangeFind_remove1:
  "rangeFind xs u = Some i \<Longrightarrow> take i xs @ drop (Suc i) xs = remove1 u xs"
  by (induction xs arbitrary: i) (auto split: if_splits)

text \<open>
  The slice expressions of \<open>addToVisited\<close> stay within bounds, so none of them panics:
  \<open>visitedURLs[:i]\<close> and \<open>visitedURLs[i+1:]\<close> are evaluated at an index of the range
  loop, and \<open>visitedURLs[1:]\<close> where the length exceeds 10.
\<close>

lemma addToVisited_bounds:
  assumes "wfState st" and "rangeFind (elems st (visitedURLs st)) url = Some i"
  shows "i \<le> cap (visitedURLs st) \<and> i + 1 \<le> len (visitedURLs st)"
proof -
  have w: "wfSlice st (visitedURLs st)" using assms(1) by (simp add: wfState_def)
  have "i < len (visitedURLs st)"
    using rangeFind_Some[OF assms(2)] length_elems[OF w] by simp
  then show ?thesis using w by (simp add: wfSlice_def)
qed

text \<open>The effect of a call on the list, and well-formedness.\<close>

lemma addToVisited_found:
  assumes "wfState st" and "rangeFind (history st) url = Some i"
  shows "history (addToVisited grow url st) = take i (history st) @ drop (Suc i) (history st) @ [url]
       \<and> wfState (addToVisited grow url st)"
proof -
  let ?v = "visitedURLs st"
  have w: "wfSlice st ?v" using assms(1) by (simp add: wfState_def)
  have i: "i < len ?v" using rangeFind_Some[OF assms(2)] length_elems[OF w] by (simp add: history_def)
  then have ic: "i \<le> cap ?v" using w by (simp add: wfSlice_def)
  obtain v1 st1 where a1: "appendSlice grow (sliceTo ?v i) (elems st (sliceFrom ?v (i + 1))) st = (v1, st1)"
    by (cases "appendSlice grow (sliceTo ?v i) (elems st (sliceFrom ?v (i + 1))) st")
  obtain v2 st2 where a2: "appendSlice grow v1 [url] (st1\<lparr>visitedURLs := v1\<rparr>) = (v2, st2)"
    by (cases "appendSlice grow v1 [url] (st1\<lparr>visitedURLs := v1\<rparr>)")
  have r: "addToVisited grow url st = st2\<lparr>visitedURLs := v2\<rparr>"
    using assms(2) a1 a2 by (simp add: addToVisited_def history_def)
  have w0: "wfSlice st (sliceTo ?v i)" by (rule wfSlice_sliceTo[OF w ic])
  have e1: "elems st1 v1 = take i (history st) @ drop (Suc i) (history st)"
    using appendSlice_elems[OF w0 a1] i by (simp add: elems_sliceTo elems_sliceFrom history_def)
  have w1: "wfSlice (st1\<lparr>visitedURLs := v1\<rparr>) v1"
    using appendSlice_wf[OF w0 a1] by simp
  have e2: "elems st2 v2 = elems st1 v1 @ [url]"
    using appendSlice_elems[OF w1 a2] by simp
  have w2: "wfSlice st2 v2" by (rule appendSlice_wf[OF w1 a2])
  show ?thesis using e1 e2 w2 by (simp add: r history_def wfState_def)
qed

lemma addToVisited_absent:
  assumes "wfState st" and "rangeFind (history st) url = None"
  shows "history (addToVisited grow url st) =
           (if length (history st @ [url]) > 10 then drop 1 (history st @ [url]) else history st @ [url])
       \<and> wfState (addToVisited grow url st)"
proof -
  let ?v = "visitedURLs st"
  have w: "wfSlice st ?v" using assms(1) by (simp add: wfState_def)
  obtain v1 st1 where a1: "appendSlice grow ?v [url] st = (v1, st1)"
    by (cases "appendSlice grow ?v [url] st")
  have e1: "elems st1 v1 = history st @ [url]"
    using appendSlice_elems[OF w a1] by (simp add: history_def)
  have w1: "wfSlice st1 v1" by (rule appendSlice_wf[OF w a1])
  have l1: "len v1 = length (history st @ [url])"
    using length_elems[OF w1] e1 by simp
  show ?thesis
  proof (cases "len v1 > 10")
    case True
    then have r: "addToVisited grow url st = st1\<lparr>visitedURLs := sliceFrom v1 1\<rparr>"
      using assms(2) a1 by (simp add: addToVisited_def history_def)
    have "wfSlice st1 (sliceFrom v1 1)" using True by (intro wfSlice_sliceFrom[OF w1]) simp
    then show ?thesis using True l1 e1 by (simp add: r history_def wfState_def elems_sliceFrom)
  next
    case False
    then have r: "addToVisited grow url st = st1\<lparr>visitedURLs := v1\<rparr>"
      using assms(2) a1 by (simp add: addToVisited_def history_def)
    show ?thesis using False l1 e1 w1 by (simp add: r history_def wfState_def)
  qed
qed

lemma addToVisited_wf: "wfState st \<Longrightarrow> wfState (addToVisited grow url st)"
  by (cases "rangeFind (history st) url") (simp_all add: addToVisited_absent addToVisited_found)

lemma addToVisited_history:
  assumes "wfState st"
  shows "history (addToVisited grow url st) = record_spec url (history st)"
proof (cases "rangeFind (history st) url")
  case None
  then have "url \<notin> set (history st)" by (simp add: rangeFind_None)
  then show ?thesis using addToVisited_absent[OF assms None, of grow]
    by (cases "history st") (simp_all add: record_spec_def Let_def)
next
  case (Some i)
  then have "url \<in> set (history st)" using rangeFind_None[of "history st" url] by auto
  then show ?thesis using addToVisited_found[OF assms Some, of grow] rangeFind_remove1[OF Some]
    by (simp add: record_spec_def)
qed

subsection \<open>The reversal loop and \<open>getVisited\<close>\<close>

lemma reverseLoop_eq:
  "reverseLoop i j c st =
     st\<lparr>arrays := (arrays st)(arr c := reverseList i j (off c) (arrays st (arr c)))\<rparr>"
proof (induction i j c st rule: reverseLoop.induct)
  case (1 i j c st)
  show ?case
  proof (cases "i < j")
    case True
    let ?a = "arrays st (arr c)"
    let ?a' = "?a[off c + nat i := ?a ! (off c + nat j), off c + nat j := ?a ! (off c + nat i)]"
    let ?st' = "swap c (nat i) (nat j) st"
    have sw: "?st' = st\<lparr>arrays := (arrays st)(arr c := ?a')\<rparr>"
      by (simp add: swap_def store_def load_def Let_def)
    have "reverseLoop i j c st = reverseLoop (i + 1) (j - 1) c ?st'"
      using True by (subst reverseLoop.simps) simp
    also have "\<dots> = ?st'\<lparr>arrays := (arrays ?st')(arr c :=
        reverseList (i + 1) (j - 1) (off c) (arrays ?st' (arr c)))\<rparr>"
      by (rule 1[OF True])
    also have "\<dots> = st\<lparr>arrays := (arrays st)(arr c := reverseList (i + 1) (j - 1) (off c) ?a')\<rparr>"
      by (simp add: sw)
    also have "reverseList (i + 1) (j - 1) (off c) ?a' = reverseList i j (off c) ?a"
      using True by (subst (2) reverseList.simps) simp
    finally show ?thesis .
  next
    case False
    then show ?thesis
      by (subst reverseLoop.simps, subst reverseList.simps) simp
  qed
qed

lemma reverseList_nth:
  "0 \<le> i \<Longrightarrow> j < int (length xs) \<Longrightarrow>
   length (reverseList i j 0 xs) = length xs \<and>
   (\<forall>m < length xs. reverseList i j 0 xs ! m =
      (if i \<le> int m \<and> int m \<le> j then xs ! nat (i + j - int m) else xs ! m))"
proof (induction i j "0::nat" xs rule: reverseList.induct)
  case (1 i j xs)
  show ?case
  proof (cases "i < j")
    case False
    have "\<And>m. i \<le> int m \<Longrightarrow> int m \<le> j \<Longrightarrow> nat (i + j - int m) = m"
      using False by linarith
    then show ?thesis using False by (subst (1 2) reverseList.simps) auto
  next
    case True
    let ?ys = "xs[0 + nat i := xs ! (0 + nat j), 0 + nat j := xs ! (0 + nat i)]"
    have ih: "length (reverseList (i + 1) (j - 1) 0 ?ys) = length ?ys \<and>
      (\<forall>m < length ?ys. reverseList (i + 1) (j - 1) 0 ?ys ! m =
        (if i + 1 \<le> int m \<and> int m \<le> j - 1 then ?ys ! nat (i + 1 + (j - 1) - int m) else ?ys ! m))"
      using "1.hyps"[OF True] "1.prems" by simp
    have r: "reverseList i j 0 xs = reverseList (i + 1) (j - 1) 0 ?ys"
      using True by (subst reverseList.simps) simp
    have "\<forall>m < length xs. reverseList i j 0 xs ! m =
      (if i \<le> int m \<and> int m \<le> j then xs ! nat (i + j - int m) else xs ! m)"
    proof (intro allI impI)
      fix m assume m: "m < length xs"
      have ni: "nat i < length xs" and nj: "nat j < length xs" and nij: "nat i \<noteq> nat j"
        using True "1.prems" by auto
      consider "int m = i" | "int m = j" | "i < int m \<and> int m < j" | "int m < i \<or> j < int m"
        by linarith
      then show "reverseList i j 0 xs ! m =
        (if i \<le> int m \<and> int m \<le> j then xs ! nat (i + j - int m) else xs ! m)"
      proof cases
        case 1
        then have mi: "m = nat i" by simp
        have "reverseList i j 0 xs ! m = ?ys ! m" using ih m 1 by (simp add: r)
        also have "\<dots> = xs ! nat j" using ni nj nij by (simp add: mi nth_list_update)
        finally show ?thesis using 1 True by simp
      next
        case 2
        then have mj: "m = nat j" by simp
        have "reverseList i j 0 xs ! m = ?ys ! m" using ih m 2 by (simp add: r)
        also have "\<dots> = xs ! nat i" using ni nj nij by (simp add: mj nth_list_update)
        finally show ?thesis using 2 True by simp
      next
        case 3
        let ?m' = "nat (i + j - int m)"
        have m': "?m' < length xs" "?m' \<noteq> nat i" "?m' \<noteq> nat j"
          using 3 "1.prems" by auto
        have "reverseList i j 0 xs ! m = ?ys ! ?m'" using ih m 3 by (simp add: r)
        also have "\<dots> = xs ! ?m'" using m' by (simp add: nth_list_update)
        finally show ?thesis using 3 by simp
      next
        case 4
        then have "m \<noteq> nat i" "m \<noteq> nat j" using "1.prems" True by linarith+
        moreover have "reverseList i j 0 xs ! m = ?ys ! m" using ih m 4 by (auto simp: r)
        ultimately show ?thesis using 4 m by (auto simp: nth_list_update)
      qed
    qed
    moreover have "length (reverseList i j 0 xs) = length xs" using ih by (simp add: r)
    ultimately show ?thesis by blast
  qed
qed

lemma reverseList_rev: "reverseList 0 (int (length xs) - 1) 0 xs = rev xs"
proof (rule nth_equalityI)
  have *: "length (reverseList 0 (int (length xs) - 1) 0 xs) = length xs \<and>
   (\<forall>m < length xs. reverseList 0 (int (length xs) - 1) 0 xs ! m =
      (if 0 \<le> int m \<and> int m \<le> int (length xs) - 1 then xs ! nat (0 + (int (length xs) - 1) - int m) else xs ! m))"
    by (rule reverseList_nth) simp_all
  then show "length (reverseList 0 (int (length xs) - 1) 0 xs) = length (rev xs)" by simp
  fix m assume "m < length (reverseList 0 (int (length xs) - 1) 0 xs)"
  then have m: "m < length xs" using * by simp
  then have "nat (0 + (int (length xs) - 1) - int m) = length xs - Suc m" by linarith
  then show "reverseList 0 (int (length xs) - 1) 0 xs ! m = rev xs ! m"
    using * m by (simp add: rev_nth)
qed

lemma getVisited_eq:
  assumes "wfState st"
  shows "getVisited st =
    (\<lparr>arr = brk st, off = 0, len = len (visitedURLs st), cap = len (visitedURLs st)\<rparr>,
     st\<lparr>arrays := (arrays st)(brk st := rev (history st)), brk := Suc (brk st)\<rparr>)"
proof -
  let ?v = "visitedURLs st" and ?n = "len (visitedURLs st)"
  have w: "wfSlice st ?v" using assms by (simp add: wfState_def)
  have n: "length (history st) = ?n" using length_elems[OF w] by (simp add: history_def)
  have ne: "arr ?v \<noteq> brk st" using w by (simp add: wfSlice_def)
  let ?c = "\<lparr>arr = brk st, off = 0, len = ?n, cap = ?n\<rparr>"
  let ?st1 = "st\<lparr>arrays := (arrays st)(brk st := replicate ?n []), brk := Suc (brk st)\<rparr>"
  have e: "elems ?st1 ?v = history st" using ne by (simp add: elems_def history_def)
  have c: "copy ?c ?v ?st1 = st\<lparr>arrays := (arrays st)(brk st := history st), brk := Suc (brk st)\<rparr>"
    using n by (simp add: copy_def writeAt_def Let_def e)
  have "reverseLoop 0 (int ?n - 1) ?c (copy ?c ?v ?st1)
      = st\<lparr>arrays := (arrays st)(brk st := rev (history st)), brk := Suc (brk st)\<rparr>"
    using reverseList_rev[of "history st"] by (simp add: c reverseLoop_eq n)
  then show ?thesis by (simp add: getVisited_def makeSlice_def)
qed

lemma snapshot_rev: "wfState st \<Longrightarrow> snapshot st = rev (history st)"
  using length_elems[of st "visitedURLs st"]
  by (simp add: snapshot_def getVisited_eq elems_def history_def wfState_def)

lemma wfState_init: "wfState init"
  by (simp add: wfState_def wfSlice_def init_def nilSlice_def)

lemma history_init: "history init = []"
  by (simp add: history_def elems_def init_def nilSlice_def)

subsection \<open>Writes to another array\<close>

lemma poke_simps [simp]:
  "brk (poke p X st) = brk st"
  "visitedURLs (poke p X st) = visitedURLs st"
  "(poke p X st)\<lparr>visitedURLs := v\<rparr> = poke p X (st\<lparr>visitedURLs := v\<rparr>)"
  "poke p X (poke p Y st) = poke p X st"
  by (simp_all add: poke_def)

lemma elems_poke [simp]: "arr s \<noteq> p \<Longrightarrow> elems (poke p X st) s = elems st s"
  by (simp add: elems_def poke_def)

lemma wfSlice_poke [simp]: "arr s \<noteq> p \<Longrightarrow> wfSlice (poke p X st) s = wfSlice st s"
  by (simp add: wfSlice_def poke_def)

lemma appendSlice_poke:
  assumes "arr s \<noteq> p" "p < brk st"
  shows "appendSlice g s vs (poke p X st) =
           (fst (appendSlice g s vs st), poke p X (snd (appendSlice g s vs st)))"
  using assms
  by (auto simp: appendSlice_def poke_def writeAt_def elems_def Let_def fun_upd_twist)

lemma appendSlice_arr:
  "arr s \<noteq> p \<Longrightarrow> p < brk st \<Longrightarrow> arr (fst (appendSlice g s vs st)) \<noteq> p"
  by (auto simp: appendSlice_def Let_def)

lemma appendSlice_brk: "p < brk st \<Longrightarrow> p < brk (snd (appendSlice g s vs st))"
  by (auto simp: appendSlice_def Let_def writeAt_def)

lemma arr_sliceTo [simp]: "arr (sliceTo s j) = arr s"
  by (simp add: sliceTo_def)

lemma arr_sliceFrom [simp]: "arr (sliceFrom s i) = arr s"
  by (simp add: sliceFrom_def)

lemma addToVisited_Some:
  assumes "rangeFind (elems st (visitedURLs st)) url = Some i"
    and "appendSlice grow (sliceTo (visitedURLs st) i)
           (elems st (sliceFrom (visitedURLs st) (i + 1))) st = (v1, st1)"
    and "appendSlice grow v1 [url] (st1\<lparr>visitedURLs := v1\<rparr>) = (v2, st2)"
  shows "addToVisited grow url st = st2\<lparr>visitedURLs := v2\<rparr>"
  using assms by (simp add: addToVisited_def)

lemma addToVisited_None:
  assumes "rangeFind (elems st (visitedURLs st)) url = None"
    and "appendSlice grow (visitedURLs st) [url] st = (v1, st1)"
  shows "addToVisited grow url st =
           (if len v1 > 10 then st1\<lparr>visitedURLs := sliceFrom v1 1\<rparr> else st1\<lparr>visitedURLs := v1\<rparr>)"
  using assms by (simp add: addToVisited_def)

lemma appendSlice_poke_eq:
  assumes "arr s \<noteq> p" "p < brk st" "appendSlice g s vs st = (s', st')"
  shows "appendSlice g s vs (poke p X st) = (s', poke p X st') \<and> arr s' \<noteq> p \<and> p < brk st'"
  using appendSlice_poke[OF assms(1,2), where g = g and vs = vs and X = X]
    appendSlice_arr[OF assms(1,2), where g = g and vs = vs]
    appendSlice_brk[OF assms(2), where g = g and s = s and vs = vs] assms(3)
  by simp

lemma addToVisited_poke:
  assumes "arr (visitedURLs st) \<noteq> p" "p < brk st"
  shows "addToVisited g u (poke p X st) = poke p X (addToVisited g u st)
       \<and> arr (visitedURLs (addToVisited g u st)) \<noteq> p \<and> p < brk (addToVisited g u st)"
proof (cases "rangeFind (elems st (visitedURLs st)) u")
  case None
  let ?v = "visitedURLs st"
  obtain v1 st1 where a1: "appendSlice g ?v [u] st = (v1, st1)"
    by (cases "appendSlice g ?v [u] st")
  have b1: "appendSlice g ?v [u] (poke p X st) = (v1, poke p X st1)" "arr v1 \<noteq> p" "p < brk st1"
    using appendSlice_poke_eq[OF assms a1, where X = X] by simp_all
  have r: "addToVisited g u st =
      (if len v1 > 10 then st1\<lparr>visitedURLs := sliceFrom v1 1\<rparr> else st1\<lparr>visitedURLs := v1\<rparr>)"
    by (rule addToVisited_None[OF None a1])
  have "rangeFind (elems (poke p X st) (visitedURLs (poke p X st))) u = None"
    using None assms(1) by simp
  moreover have "appendSlice g (visitedURLs (poke p X st)) [u] (poke p X st) = (v1, poke p X st1)"
    using b1(1) by simp
  ultimately have r': "addToVisited g u (poke p X st) =
      (if len v1 > 10 then (poke p X st1)\<lparr>visitedURLs := sliceFrom v1 1\<rparr>
       else (poke p X st1)\<lparr>visitedURLs := v1\<rparr>)"
    by (rule addToVisited_None)
  show ?thesis using b1(2,3) by (simp add: r r')
next
  case (Some i)
  let ?v = "visitedURLs st"
  obtain v1 st1 where a1: "appendSlice g (sliceTo ?v i) (elems st (sliceFrom ?v (i + 1))) st = (v1, st1)"
    by (cases "appendSlice g (sliceTo ?v i) (elems st (sliceFrom ?v (i + 1))) st")
  obtain v2 st2 where a2: "appendSlice g v1 [u] (st1\<lparr>visitedURLs := v1\<rparr>) = (v2, st2)"
    by (cases "appendSlice g v1 [u] (st1\<lparr>visitedURLs := v1\<rparr>)")
  have s: "arr (sliceTo ?v i) \<noteq> p" using assms(1) by simp
  have b1: "appendSlice g (sliceTo ?v i) (elems st (sliceFrom ?v (i + 1))) (poke p X st) = (v1, poke p X st1)"
    "arr v1 \<noteq> p" "p < brk st1"
    using appendSlice_poke_eq[OF s assms(2) a1, where X = X] by simp_all
  have p1: "p < brk (st1\<lparr>visitedURLs := v1\<rparr>)" using b1(3) by simp
  have b2: "appendSlice g v1 [u] (poke p X (st1\<lparr>visitedURLs := v1\<rparr>)) = (v2, poke p X st2)"
    "arr v2 \<noteq> p" "p < brk st2"
    using appendSlice_poke_eq[OF b1(2) p1 a2, where X = X] by simp_all
  have r: "addToVisited g u st = st2\<lparr>visitedURLs := v2\<rparr>"
    by (rule addToVisited_Some[OF Some a1 a2])
  have "rangeFind (elems (poke p X st) (visitedURLs (poke p X st))) u = Some i"
    using Some assms(1) by simp
  moreover have "appendSlice g (sliceTo (visitedURLs (poke p X st)) i)
      (elems (poke p X st) (sliceFrom (visitedURLs (poke p X st)) (i + 1))) (poke p X st)
      = (v1, poke p X st1)"
    using b1(1) assms(1) by simp
  moreover have "appendSlice g v1 [u] ((poke p X st1)\<lparr>visitedURLs := v1\<rparr>) = (v2, poke p X st2)"
    using b2(1) by simp
  ultimately have r': "addToVisited g u (poke p X st) = (poke p X st2)\<lparr>visitedURLs := v2\<rparr>"
    by (rule addToVisited_Some)
  show ?thesis using b2(2,3) by (simp add: r r')
qed

lemma addToVisited_frame: "frame p st \<Longrightarrow> frame p (addToVisited g u st)"
  by (simp add: frame_def addToVisited_wf addToVisited_poke)

lemma wfState_poke: "frame p st \<Longrightarrow> wfState (poke p X st)"
  by (simp add: frame_def wfState_def)

lemma history_poke: "frame p st \<Longrightarrow> history (poke p X st) = history st"
  by (simp add: frame_def history_def)

lemma getVisited_poke:
  assumes "frame p st"
  shows "getVisited (poke p X st) = (fst (getVisited st), poke p X (snd (getVisited st)))"
proof -
  have ne: "p \<noteq> brk st" and w: "wfState st" using assms by (simp_all add: frame_def)
  have tw: "((arrays st)(p := X))(brk st := rev (history st))
      = ((arrays st)(brk st := rev (history st)))(p := X)"
    using ne by (rule fun_upd_twist)
  have "getVisited (poke p X st) =
    (\<lparr>arr = brk st, off = 0, len = len (visitedURLs st), cap = len (visitedURLs st)\<rparr>,
     (poke p X st)\<lparr>arrays := (arrays (poke p X st))(brk st := rev (history st)),
        brk := Suc (brk st)\<rparr>)"
    using getVisited_eq[OF wfState_poke[OF assms, of X]] history_poke[OF assms, of X] by simp
  also have "(poke p X st)\<lparr>arrays := (arrays (poke p X st))(brk st := rev (history st)),
        brk := Suc (brk st)\<rparr>
      = poke p X (st\<lparr>arrays := (arrays st)(brk st := rev (history st)), brk := Suc (brk st)\<rparr>)"
    by (simp add: poke_def tw)
  finally show ?thesis by (simp add: getVisited_eq[OF w])
qed

lemma getVisited_frame: "frame p st \<Longrightarrow> frame p (snd (getVisited st))"
  by (auto simp: frame_def getVisited_eq wfState_def wfSlice_def)

lemma snapshot_poke: "frame p st \<Longrightarrow> snapshot (poke p X st) = snapshot st"
  using wfState_poke[of p st X]
  by (simp add: snapshot_rev history_poke frame_def)

lemma run_poke:
  "frame p st \<Longrightarrow> run g cs (poke p X st) = poke p X (run g cs st) \<and> frame p (run g cs st)"
proof (induction cs arbitrary: st)
  case Nil
  then show ?case by simp
next
  case (Cons c cs)
  show ?case
  proof (cases c)
    case (AddToVisited u)
    have "addToVisited g u (poke p X st) = poke p X (addToVisited g u st)"
      using Cons.prems by (simp add: addToVisited_poke frame_def)
    then show ?thesis
      using Cons.IH[OF addToVisited_frame[OF Cons.prems, of g u]] by (simp add: AddToVisited)
  next
    case GetVisited
    then show ?thesis
      using Cons.IH[OF getVisited_frame[OF Cons.prems]] by (simp add: getVisited_poke[OF Cons.prems])
  qed
qed

lemma store_poke: "store c i v st = poke (arr c) ((arrays st (arr c))[off c + i := v]) st"
  by (simp add: store_def poke_def)

lemma stores_poke: "\<exists>X. stores c ws st = poke (arr c) X st"
proof (induction ws arbitrary: st)
  case Nil
  have "stores c [] st = poke (arr c) (arrays st (arr c)) st" by (simp add: poke_def)
  then show ?case by (rule exI)
next
  case (Cons w ws)
  obtain i v where w: "w = (i, v)" by (cases w)
  from Cons[of "store c i v st"] obtain X where "stores c ws (store c i v st) = poke (arr c) X (store c i v st)"
    by blast
  then have "stores c (w # ws) st = poke (arr c) X st" by (simp add: w store_poke)
  then show ?case by (rule exI)
qed

lemma getVisited_wf:
  assumes "wfState st"
  shows "wfState (snd (getVisited st))"
proof -
  have "arr (visitedURLs st) \<noteq> brk st" using assms by (simp add: wfState_def wfSlice_def)
  then show ?thesis
    using assms unfolding getVisited_eq[OF assms] by (simp add: wfState_def wfSlice_def)
qed

lemma run_wfState: "wfState st \<Longrightarrow> wfState (run g cs st)"
proof (induction cs arbitrary: st)
  case Nil
  then show ?case by simp
next
  case (Cons c cs)
  show ?case
  proof (cases c)
    case (AddToVisited u)
    then show ?thesis using Cons.IH[OF addToVisited_wf[OF Cons.prems, of g u]] by simp
  next
    case GetVisited
    then show ?thesis using Cons.IH[OF getVisited_wf[OF Cons.prems]] by simp
  qed
qed

subsection \<open>The operations on the list, and the claims\<close>

lemma record_spec_last: "record_spec u xs \<noteq> [] \<and> last (record_spec u xs) = u"
  by (cases xs) (auto simp: record_spec_def Let_def)

lemma record_spec_keeps_last:
  assumes "xs \<noteq> []" "last xs = u1" "u1 \<noteq> u2"
  shows "u1 \<in> set (butlast (record_spec u2 xs))"
proof (cases "u2 \<in> set xs")
  case True
  have "u1 \<in> set xs" using assms(1,2) last_in_set by blast
  then show ?thesis using True assms(3) by (simp add: record_spec_def)
next
  case False
  show ?thesis
  proof (cases "length (xs @ [u2]) > 10")
    case True
    then have t: "tl xs \<noteq> []" by (cases xs) auto
    have "tl (xs @ [u2]) = tl xs @ [u2]" using assms(1) by (cases xs) auto
    moreover have "last (tl xs) = u1" using t assms(2) by (simp add: last_tl)
    ultimately show ?thesis using False True t last_in_set[OF t]
      by (simp add: record_spec_def Let_def)
  next
    case False
    then show ?thesis using \<open>u2 \<notin> set xs\<close> assms(1,2) last_in_set[OF assms(1)]
      by (simp add: record_spec_def Let_def)
  qed
qed

lemma record_spec_inv:
  assumes "history_inv xs"
  shows "history_inv (record_spec u xs)"
proof (cases "u \<in> set xs")
  case True
  then have "length (remove1 u xs @ [u]) = length xs"
    using length_pos_if_in_set[OF True] by (simp add: length_remove1)
  moreover have "distinct (remove1 u xs @ [u])"
    using assms by (simp add: history_inv_def)
  ultimately show ?thesis using True assms by (simp add: history_inv_def record_spec_def)
next
  case False
  then show ?thesis using assms
    by (auto simp: history_inv_def record_spec_def Let_def distinct_tl)
qed

lemma two_records_order:
  assumes "u1 \<noteq> u2"
  shows "let s = rev (record_spec u2 (record_spec u1 xs)) in
           u1 \<in> set s \<and> u2 \<in> set s \<and> (\<exists>i j. i < j \<and> j < length s \<and> s ! i = u2 \<and> s ! j = u1)"
proof -
  let ?ys = "record_spec u1 xs" and ?zs = "record_spec u2 (record_spec u1 xs)"
  have ys: "?ys \<noteq> []" "last ?ys = u1" using record_spec_last[of u1 xs] by simp_all
  have zs: "?zs \<noteq> []" "last ?zs = u2" using record_spec_last[of u2 ?ys] by simp_all
  have b: "u1 \<in> set (butlast ?zs)" by (rule record_spec_keeps_last[OF ys assms])
  have r: "rev ?zs = u2 # rev (butlast ?zs)"
    using zs by (metis append_butlast_last_id rev_append append_Cons append_Nil rev_singleton_conv)
  from b have "u1 \<in> set (rev (butlast ?zs))" by simp
  then obtain k where k: "k < length (rev (butlast ?zs))" "rev (butlast ?zs) ! k = u1"
    unfolding in_set_conv_nth by blast
  have "0 < Suc k \<and> Suc k < length (rev ?zs) \<and> rev ?zs ! 0 = u2 \<and> rev ?zs ! Suc k = u1"
    using k by (simp add: r)
  then have "\<exists>i j. i < j \<and> j < length (rev ?zs) \<and> rev ?zs ! i = u2 \<and> rev ?zs ! j = u1"
    by blast
  moreover have "u1 \<in> set (rev ?zs)" "u2 \<in> set (rev ?zs)" using b by (simp_all add: r)
  ultimately show ?thesis by (simp add: Let_def)
qed

text \<open>
  C2. For every state of the history and every URL \<open>u\<close>: if \<open>u\<close> is present,
  \<open>addToVisited\<close> removes it from its position and appends it at the end, and the
  length is unchanged; otherwise it appends \<open>u\<close> and, if the length then exceeds 10,
  drops the front entry. The snapshot that \<open>getVisited\<close> returns is the internal list
  reversed. Hence after recording \<open>u1\<close> and then a different \<open>u2\<close>, the snapshot
  contains both, \<open>u2\<close> before \<open>u1\<close>.
\<close>

theorem record_and_snapshot:
  assumes "wfState st"
  shows "(u \<in> set (history st) \<longrightarrow>
            history (addToVisited grow u st) = remove1 u (history st) @ [u]
          \<and> length (history (addToVisited grow u st)) = length (history st))
       \<and> (u \<notin> set (history st) \<longrightarrow>
            history (addToVisited grow u st) =
              (if length (history st @ [u]) > 10 then tl (history st @ [u]) else history st @ [u]))
       \<and> snapshot st = rev (history st)
       \<and> (u1 \<noteq> u2 \<longrightarrow>
            (let s = snapshot (addToVisited grow u2 (addToVisited grow u1 st)) in
               u1 \<in> set s \<and> u2 \<in> set s
             \<and> (\<exists>i j. i < j \<and> j < length s \<and> s ! i = u2 \<and> s ! j = u1)))"
proof (intro conjI impI)
  assume u: "u \<in> set (history st)"
  then show "history (addToVisited grow u st) = remove1 u (history st) @ [u]"
    by (simp add: addToVisited_history[OF assms] record_spec_def)
  then show "length (history (addToVisited grow u st)) = length (history st)"
    using u length_pos_if_in_set[OF u] by (simp add: length_remove1)
next
  assume "u \<notin> set (history st)"
  then show "history (addToVisited grow u st) =
      (if length (history st @ [u]) > 10 then tl (history st @ [u]) else history st @ [u])"
    by (simp add: addToVisited_history[OF assms] record_spec_def Let_def)
next
  show "snapshot st = rev (history st)" by (rule snapshot_rev[OF assms])
next
  assume ne: "u1 \<noteq> u2"
  have w1: "wfState (addToVisited grow u1 st)" by (rule addToVisited_wf[OF assms])
  have w2: "wfState (addToVisited grow u2 (addToVisited grow u1 st))" by (rule addToVisited_wf[OF w1])
  have "snapshot (addToVisited grow u2 (addToVisited grow u1 st))
      = rev (record_spec u2 (record_spec u1 (history st)))"
    by (simp add: snapshot_rev[OF w2] addToVisited_history[OF w1] addToVisited_history[OF assms])
  then show "let s = snapshot (addToVisited grow u2 (addToVisited grow u1 st)) in
               u1 \<in> set s \<and> u2 \<in> set s
             \<and> (\<exists>i j. i < j \<and> j < length s \<and> s ! i = u2 \<and> s ! j = u1)"
    using two_records_order[OF ne, of "history st"] by simp
qed

text \<open>
  After recording \<open>a\<close> and \<open>b\<close>: recording \<open>a\<close> again moves it to the end, and the
  snapshot lists \<open>b\<close> first.
\<close>

theorem record_and_snapshot_witness:
  "wfState (addToVisited doubling ''b'' (addToVisited doubling ''a'' init))
   \<and> history (addToVisited doubling ''a'' (addToVisited doubling ''b'' (addToVisited doubling ''a'' init)))
       = [''b'', ''a'']
   \<and> snapshot (addToVisited doubling ''b'' (addToVisited doubling ''a'' init)) = [''b'', ''a'']"
proof -
  let ?st = "addToVisited doubling ''b'' (addToVisited doubling ''a'' init)"
  have w: "wfState ?st" by (intro addToVisited_wf wfState_init)
  have h: "history ?st = [''a'', ''b'']" by code_simp
  from record_and_snapshot[OF w, of "''a''" doubling] h w
  show ?thesis by simp
qed

lemma run_history_inv:
  "wfState st \<Longrightarrow> history_inv (history st) \<Longrightarrow> history_inv (history (run grow cs st))"
proof (induction cs arbitrary: st)
  case Nil
  then show ?case by simp
next
  case (Cons c cs)
  show ?case
  proof (cases c)
    case (AddToVisited u)
    have "history_inv (history (addToVisited grow u st))"
      using Cons.prems by (simp add: addToVisited_history record_spec_inv)
    then show ?thesis
      using Cons.IH[OF addToVisited_wf[OF Cons.prems(1), of grow u]] by (simp add: AddToVisited)
  next
    case GetVisited
    have "history (snd (getVisited st)) = history st"
      using Cons.prems(1)
      by (simp add: getVisited_eq history_def elems_def wfState_def wfSlice_def)
    then show ?thesis
      using Cons.IH[OF getVisited_wf[OF Cons.prems(1)]] Cons.prems(2) by (simp add: GetVisited)
  qed
qed

text \<open>
  C7. The invariant of the visit history, at most 10 entries and no duplicates, holds
  of the initial state, is preserved by every call of \<open>addToVisited\<close>, and so holds
  after every sequence of calls from the initial state.
\<close>

theorem history_invariant:
  "wfState init \<and> history_inv (history init)
   \<and> (wfState st \<and> history_inv (history st) \<longrightarrow>
        wfState (addToVisited grow u st) \<and> history_inv (history (addToVisited grow u st)))
   \<and> history_inv (history (run grow calls init))"
proof -
  have i: "history_inv (history init)" by (simp add: history_init history_inv_def)
  show ?thesis
    using i wfState_init run_history_inv[OF wfState_init i]
    by (auto simp: addToVisited_wf addToVisited_history record_spec_inv)
qed

text \<open>
  The invariant in the initial state and after the first call.
\<close>

theorem history_invariant_witness:
  "wfState init \<and> history_inv (history init)
   \<and> history_inv (history (addToVisited doubling ''a'' init))"
  using history_invariant[of init doubling "''a''"] by blast

text \<open>
  C9. \<open>getVisited\<close> only reads the history: the slice header \<open>visitedURLs\<close>, the
  internal list and every array allocated before the call are unchanged. The slice it
  returns holds the reversed list in a newly allocated array, which is not the array of
  \<open>visitedURLs\<close>. So whatever a caller writes into the returned slice, every later
  snapshot, after any further calls, is what it would have been without the writes.
\<close>

theorem getVisited_fresh_copy:
  assumes "wfState st" and "getVisited st = (copied, st')"
  shows "visitedURLs st' = visitedURLs st \<and> history st' = history st
       \<and> (\<forall>a. a < brk st \<longrightarrow> arrays st' a = arrays st a)
       \<and> arr copied = brk st \<and> arr copied \<noteq> arr (visitedURLs st)
       \<and> elems st' copied = rev (history st)
       \<and> snapshot (run grow calls (stores copied writes st')) = snapshot (run grow calls st')
       \<and> history (run grow calls (stores copied writes st')) = history (run grow calls st')"
proof -
  have ne: "arr (visitedURLs st) \<noteq> brk st" "arr (visitedURLs st) < brk st"
    using assms(1) by (simp_all add: wfState_def wfSlice_def)
  have c: "copied = \<lparr>arr = brk st, off = 0, len = len (visitedURLs st), cap = len (visitedURLs st)\<rparr>"
    and st': "st' = st\<lparr>arrays := (arrays st)(brk st := rev (history st)), brk := Suc (brk st)\<rparr>"
    using assms(2) by (simp_all add: getVisited_eq[OF assms(1)])
  have n: "length (history st) = len (visitedURLs st)"
    using length_elems[of st "visitedURLs st"] assms(1) by (simp add: history_def wfState_def)
  have w': "wfState st'" using getVisited_wf[OF assms(1)] assms(2) by simp
  have f: "frame (arr copied) st'"
    using w' ne by (simp add: frame_def c st')
  obtain X where X: "stores copied writes st' = poke (arr copied) X st'"
    using stores_poke by blast
  have r: "run grow calls (poke (arr copied) X st') = poke (arr copied) X (run grow calls st')"
    and f': "frame (arr copied) (run grow calls st')"
    using run_poke[OF f, of grow calls X] by simp_all
  have 1: "visitedURLs st' = visitedURLs st" by (simp add: st')
  have 2: "history st' = history st" using ne by (simp add: st' history_def elems_def)
  have 3: "\<forall>a. a < brk st \<longrightarrow> arrays st' a = arrays st a" by (simp add: st')
  have 4: "arr copied = brk st \<and> arr copied \<noteq> arr (visitedURLs st)" using ne by (simp add: c)
  have 5: "elems st' copied = rev (history st)" using n by (simp add: c st' elems_def)
  have 6: "snapshot (run grow calls (stores copied writes st')) = snapshot (run grow calls st')"
    using f' by (simp add: X r snapshot_poke)
  have 7: "history (run grow calls (stores copied writes st')) = history (run grow calls st')"
    using f' by (simp add: X r history_poke)
  from 1 2 3 4 5 6 7 show ?thesis by blast
qed

text \<open>
  After recording \<open>a\<close>, a caller overwrites element 0 of the slice it got; \<open>b\<close> is
  recorded and a snapshot taken; the next snapshot is \<open>b\<close>, \<open>a\<close>.
\<close>

theorem getVisited_fresh_copy_witness:
  "wfState (addToVisited doubling ''a'' init)
   \<and> snapshot (run doubling [AddToVisited ''b'', GetVisited]
        (stores (fst (getVisited (addToVisited doubling ''a'' init))) [(0, ''x'')]
           (snd (getVisited (addToVisited doubling ''a'' init)))))
     = [''b'', ''a'']"
proof -
  let ?st = "addToVisited doubling ''a'' init"
  have w: "wfState ?st" by (intro addToVisited_wf wfState_init)
  have g: "getVisited ?st = (fst (getVisited ?st), snd (getVisited ?st))" by simp
  have s: "snapshot (run doubling [AddToVisited ''b'', GetVisited] (snd (getVisited ?st)))
      = [''b'', ''a'']"
    by code_simp
  have "snapshot (run doubling [AddToVisited ''b'', GetVisited]
        (stores (fst (getVisited ?st)) [(0, ''x'')] (snd (getVisited ?st))))
      = snapshot (run doubling [AddToVisited ''b'', GetVisited] (snd (getVisited ?st)))"
    using getVisited_fresh_copy[OF w g] by blast
  with s w show ?thesis by simp
qed

end
